theory Spec2Isabelle
  imports Complex_Main
begin

section \<open>Real-time stream processing and alerting engine\<close>

text \<open>
  A shallow embedding of \<^verbatim>\<open>services/realtime_processor.py\<close>
  (class \<^verbatim>\<open>RealtimeProcessorService\<close>). Points in time are integers counting
  microseconds; Python floats are modelled as rationals; every call of
  \<^verbatim>\<open>datetime.utcnow()\<close> is a parameter named \<open>now\<close> or \<open>current_time\<close>.
\<close>

subsection \<open>Time\<close>

text \<open>
  A Python \<^verbatim>\<open>datetime\<close> is naive or timezone-aware. \<^verbatim>\<open>datetime.utcnow()\<close> is
  always naive, and comparing a naive with an aware value raises \<^verbatim>\<open>TypeError\<close>.
\<close>

datatype datetime = Naive int | Aware int

definition minutes :: "int \<Rightarrow> int" where
  "minutes m = m * 60000000"

text \<open>\<^verbatim>\<open>e.timestamp > t\<close> for a naive \<open>t\<close>; \<open>None\<close> is the \<^verbatim>\<open>TypeError\<close>.\<close>

fun dt_gt :: "datetime \<Rightarrow> int \<Rightarrow> bool option" where
  "dt_gt (Naive a) t = Some (t < a)"
| "dt_gt (Aware a) t = None"

subsection \<open>Events\<close>

text \<open>
  The field \<^verbatim>\<open>data\<close> of an event is any JSON value. The program only ever evaluates
  \<^verbatim>\<open>e.data.get('is_error', False)\<close>: on a dictionary this has a truth value
  (\<open>DataDict\<close>), on anything else it raises \<^verbatim>\<open>AttributeError\<close> (\<open>DataOther\<close>).
\<close>

datatype event_data = DataDict bool | DataOther

record realtime_event =
  site_id :: string
  event_type :: string
  timestamp :: datetime
  data :: event_data
  user_id :: "string option"
  session_id :: "string option"

text \<open>Python truthiness of an optional string: \<^verbatim>\<open>None\<close> and \<^verbatim>\<open>''\<close> are false.\<close>

fun truthy :: "string option \<Rightarrow> bool" where
  "truthy None = False"
| "truthy (Some x) = (x \<noteq> [])"

text \<open>
  A list comprehension \<^verbatim>\<open>[x for x in xs if p(x)]\<close> whose condition may raise:
  \<open>None\<close> when the condition raises on some element.
\<close>

fun filter_raise :: "('a \<Rightarrow> bool option) \<Rightarrow> 'a list \<Rightarrow> 'a list option" where
  "filter_raise p [] = Some []"
| "filter_raise p (x # xs) =
     (case p x of
        None \<Rightarrow> None
      | Some b \<Rightarrow>
          (case filter_raise p xs of
             None \<Rightarrow> None
           | Some ys \<Rightarrow> Some (if b then x # ys else ys)))"

subsection \<open>The bounded event buffer\<close>

text \<open>
  \<^verbatim>\<open>collections.deque(maxlen=n)\<close>: \<^verbatim>\<open>append\<close> adds on the right and, when the
  length then exceeds \<open>maxlen\<close>, removes one element on the left.
\<close>

record 'a deque =
  items :: "'a list"
  maxlen :: "nat option"

definition deque_append :: "'a deque \<Rightarrow> 'a \<Rightarrow> 'a deque" where
  "deque_append d x =
     (let ys = items d @ [x] in
      case maxlen d of
        None \<Rightarrow> d\<lparr>items := ys\<rparr>
      | Some m \<Rightarrow> if m < length ys then d\<lparr>items := tl ys\<rparr> else d\<lparr>items := ys\<rparr>)"

subsection \<open>Streaming windows and their metrics\<close>

type_synonym metric_map = "string \<rightharpoonup> rat"

record streaming_window =
  window_size :: nat
  events :: "realtime_event deque"
  metrics :: metric_map
  last_update :: int

text \<open>\<^verbatim>\<open>stream.metrics.get(name, 0)\<close>\<close>

definition metric_get :: "metric_map \<Rightarrow> string \<Rightarrow> rat" where
  "metric_get m name = (case m name of None \<Rightarrow> 0 | Some v \<Rightarrow> v)"

definition is_page_view :: "realtime_event \<Rightarrow> bool" where
  "is_page_view e = (event_type e = ''page_view'')"

definition is_conversion :: "realtime_event \<Rightarrow> bool" where
  "is_conversion e = (event_type e \<in> set [''purchase'', ''signup'', ''conversion''])"

text \<open>
  \<^verbatim>\<open>e.event_type == 'error' or e.data.get('is_error', False)\<close>: the right operand is
  evaluated only when the left one is false.
\<close>

definition is_error_event :: "realtime_event \<Rightarrow> bool option" where
  "is_error_event e =
     (if event_type e = ''error'' then Some True
      else case data e of DataDict b \<Rightarrow> Some b | DataOther \<Rightarrow> None)"

text \<open>The keys of \<^verbatim>\<open>sessions_data\<close>, which are also \<^verbatim>\<open>set(e.session_id ... if e.session_id)\<close>.\<close>

definition session_keys :: "realtime_event list \<Rightarrow> string list" where
  "session_keys es =
     remdups (List.map_filter (\<lambda>e. if truthy (session_id e) then session_id e else None) es)"

definition user_keys :: "realtime_event list \<Rightarrow> string list" where
  "user_keys es =
     remdups (List.map_filter (\<lambda>e. if truthy (user_id e) then user_id e else None) es)"

definition session_events :: "realtime_event list \<Rightarrow> string \<Rightarrow> realtime_event list" where
  "session_events es sid = filter (\<lambda>e. session_id e = Some sid) es"

definition bounced_sessions :: "realtime_event list \<Rightarrow> nat" where
  "bounced_sessions es =
     length (filter (\<lambda>sid. length (session_events es sid) = 1) (session_keys es))"

definition recent_events_of :: "streaming_window \<Rightarrow> int \<Rightarrow> realtime_event list option" where
  "recent_events_of stream t = filter_raise (\<lambda>e. dt_gt (timestamp e) t) (items (events stream))"

text \<open>
  \<^verbatim>\<open>_update_stream_metrics\<close>. An exception leaves the function through its
  \<^verbatim>\<open>except\<close> clause with the assignments made so far kept: none when the timestamp
  comparison raises, all but \<^verbatim>\<open>error_rate\<close> when the error count raises.
\<close>

definition update_stream_metrics ::
  "streaming_window \<Rightarrow> realtime_event list \<Rightarrow> int \<Rightarrow> streaming_window" where
  "update_stream_metrics stream evs current_time =
     (let one_minute_ago = current_time - minutes 1 in
      case recent_events_of stream one_minute_ago of
        None \<Rightarrow> stream
      | Some recent_events \<Rightarrow>
          (let m1 = (metrics stream)
                 (''events_per_minute'' \<mapsto> of_nat (length recent_events),
                  ''page_views_per_minute'' \<mapsto> of_nat (length (filter is_page_view recent_events)),
                  ''unique_sessions'' \<mapsto> of_nat (length (session_keys recent_events)),
                  ''active_users'' \<mapsto> of_nat (length (user_keys recent_events)));
               total_sessions = length (session_keys recent_events);
               m2 = (if 0 < total_sessions
                     then m1(''bounce_rate'' \<mapsto>
                            of_nat (bounced_sessions recent_events) / of_nat total_sessions)
                     else m1);
               conversions = length (filter is_conversion recent_events);
               m3 = m2(''conversion_rate'' \<mapsto>
                         of_nat conversions / of_nat (max (length recent_events) 1))
           in case filter_raise is_error_event recent_events of
                None \<Rightarrow> stream\<lparr>metrics := m3\<rparr>
              | Some errors \<Rightarrow>
                  stream\<lparr>metrics := m3(''error_rate'' \<mapsto>
                     of_nat (length errors) / of_nat (max (length recent_events) 1))\<rparr>))"

subsection \<open>Alert rules\<close>

datatype alert_severity = LOW | MEDIUM | HIGH | CRITICAL

text \<open>
  A rule is a dictionary; a key that a rule may lack is an optional field.
\<close>

record alert_rule =
  metric :: "string option"
  threshold :: "rat option"
  threshold_multiplier :: "rat option"
  window_minutes :: "int option"
  severity :: "alert_severity option"
  cooldown_minutes :: "int option"

text \<open>\<^verbatim>\<open>_setup_alert_rules\<close>: the six configured rules, in the order of the dictionary.\<close>

definition traffic_spike :: alert_rule where
  "traffic_spike =
     \<lparr>metric = Some ''page_views_per_minute'', threshold = None,
      threshold_multiplier = Some 3, window_minutes = Some 5,
      severity = Some HIGH, cooldown_minutes = Some 30\<rparr>"

definition traffic_drop :: alert_rule where
  "traffic_drop =
     \<lparr>metric = Some ''page_views_per_minute'', threshold = None,
      threshold_multiplier = Some (3 / 10), window_minutes = Some 10,
      severity = Some MEDIUM, cooldown_minutes = Some 15\<rparr>"

definition high_bounce_rate :: alert_rule where
  "high_bounce_rate =
     \<lparr>metric = Some ''bounce_rate'', threshold = Some (8 / 10),
      threshold_multiplier = None, window_minutes = Some 15,
      severity = Some MEDIUM, cooldown_minutes = Some 30\<rparr>"

definition conversion_drop :: alert_rule where
  "conversion_drop =
     \<lparr>metric = Some ''conversion_rate'', threshold = None,
      threshold_multiplier = Some (5 / 10), window_minutes = Some 30,
      severity = Some HIGH, cooldown_minutes = Some 60\<rparr>"

definition server_error_spike :: alert_rule where
  "server_error_spike =
     \<lparr>metric = Some ''error_rate'', threshold = Some (5 / 100),
      threshold_multiplier = None, window_minutes = Some 5,
      severity = Some CRITICAL, cooldown_minutes = Some 10\<rparr>"

definition unusual_user_behavior :: alert_rule where
  "unusual_user_behavior =
     \<lparr>metric = Some ''unusual_sessions_rate'', threshold = Some (1 / 10),
      threshold_multiplier = None, window_minutes = Some 20,
      severity = Some MEDIUM, cooldown_minutes = Some 45\<rparr>"

definition setup_alert_rules :: "(string \<times> alert_rule) list" where
  "setup_alert_rules =
     [(''traffic_spike'', traffic_spike),
      (''traffic_drop'', traffic_drop),
      (''high_bounce_rate'', high_bounce_rate),
      (''conversion_drop'', conversion_drop),
      (''server_error_spike'', server_error_spike),
      (''unusual_user_behavior'', unusual_user_behavior)]"

text \<open>
  \<^verbatim>\<open>_get_historical_average\<close>. The \<^verbatim>\<open>except\<close> clause returns 0: on a timestamp
  that cannot be compared and on a division by \<^verbatim>\<open>window_minutes = 0\<close>.
\<close>

definition get_historical_average ::
  "streaming_window \<Rightarrow> string \<Rightarrow> int \<Rightarrow> int \<Rightarrow> rat" where
  "get_historical_average stream metric_name wm current_time =
     (let window_start = current_time - minutes wm in
      case recent_events_of stream window_start of
        None \<Rightarrow> 0
      | Some relevant_events \<Rightarrow>
          if relevant_events = [] then 0
          else if metric_name = ''page_views_per_minute'' then
            (if wm = 0 then 0
             else of_nat (length (filter is_page_view relevant_events)) / of_int wm)
          else if metric_name = ''error_rate'' then
            of_nat (length (filter (\<lambda>e. event_type e = ''error'') relevant_events))
              / of_nat (max (length relevant_events) 1)
          else metric_get (metrics stream) metric_name)"

text \<open>
  \<^verbatim>\<open>_check_alert_condition\<close>. A rule without the key \<^verbatim>\<open>metric\<close> raises
  \<^verbatim>\<open>KeyError\<close>, which the \<^verbatim>\<open>except\<close> clause turns into \<^verbatim>\<open>False\<close>.
\<close>

definition check_alert_condition :: "streaming_window \<Rightarrow> alert_rule \<Rightarrow> int \<Rightarrow> bool" where
  "check_alert_condition stream rule current_time =
     (case metric rule of
        None \<Rightarrow> False
      | Some metric_name \<Rightarrow>
          (let current_value = metric_get (metrics stream) metric_name in
           case threshold rule of
             Some th \<Rightarrow> th < current_value
           | None \<Rightarrow>
               (case threshold_multiplier rule of
                  None \<Rightarrow> False
                | Some multiplier \<Rightarrow>
                    (let historical_avg = get_historical_average stream metric_name
                           (case window_minutes rule of None \<Rightarrow> 60 | Some w \<Rightarrow> w) current_time
                     in if 0 < historical_avg then
                          (if 1 < multiplier then historical_avg * multiplier < current_value
                           else current_value < historical_avg * multiplier)
                        else False))))"

subsection \<open>Alerts and the store\<close>

text \<open>
  The fields of \<^verbatim>\<open>AlertData\<close> that are computed; the message texts, the title and
  the recommended actions are fixed strings per rule and are left out.
\<close>

record alert_data =
  alert_site :: string
  alert_type :: string
  alert_severity :: alert_severity
  triggered_at :: int
  metric_name :: string
  current_value :: rat
  threshold_value :: rat
  auto_resolved :: bool

text \<open>
  \<^verbatim>\<open>_create_alert\<close>; \<open>None\<close> is the exception it re-raises
  (\<^verbatim>\<open>rule['metric']\<close> or \<^verbatim>\<open>rule['severity']\<close> missing).
\<close>

definition create_alert ::
  "string \<Rightarrow> string \<Rightarrow> alert_rule \<Rightarrow> streaming_window \<Rightarrow> int \<Rightarrow> alert_data option" where
  "create_alert site rule_name rule stream now =
     (case metric rule of
        None \<Rightarrow> None
      | Some mn \<Rightarrow>
          (case severity rule of
             None \<Rightarrow> None
           | Some sev \<Rightarrow>
               Some \<lparr>alert_site = site, alert_type = rule_name, alert_severity = sev,
                     triggered_at = now, metric_name = mn,
                     current_value = metric_get (metrics stream) mn,
                     threshold_value = (case threshold rule of None \<Rightarrow> 0 | Some th \<Rightarrow> th),
                     auto_resolved = False\<rparr>))"

text \<open>
  The Redis store, as far as the service writes it: the string value that
  \<^verbatim>\<open>configure_thresholds\<close> writes with \<^verbatim>\<open>setex\<close> (the JSON of a threshold
  dictionary), with its time to live in seconds.
\<close>

datatype redis_value = RThresholds "(string \<times> rat) list"

type_synonym redis_store = "string \<rightharpoonup> (redis_value \<times> nat option)"

subsection \<open>The intake queue\<close>

text \<open>
  \<^verbatim>\<open>asyncio.Queue(maxsize)\<close>: with \<^verbatim>\<open>maxsize <= 0\<close> the queue is never full;
  \<^verbatim>\<open>put\<close> on a full queue suspends the caller (\<open>None\<close>).
\<close>

record 'a queue =
  qitems :: "'a list"
  maxsize :: int

definition queue_full :: "'a queue \<Rightarrow> bool" where
  "queue_full q = (if maxsize q \<le> 0 then False else maxsize q \<le> int (length (qitems q)))"

definition queue_put :: "'a queue \<Rightarrow> 'a \<Rightarrow> 'a queue option" where
  "queue_put q x = (if queue_full q then None else Some (q\<lparr>qitems := qitems q @ [x]\<rparr>))"

subsection \<open>The service\<close>

record service =
  active_streams :: "string \<rightharpoonup> streaming_window"
  alert_rules :: "(string \<times> alert_rule) list"
  alert_cooldowns :: "string \<rightharpoonup> int"
  processing_queue :: "realtime_event queue"
  redis :: redis_store

text \<open>\<^verbatim>\<open>__init__\<close> followed by \<^verbatim>\<open>initialize\<close>.\<close>

definition init_service :: service where
  "init_service =
     \<lparr>active_streams = Map.empty,
      alert_rules = setup_alert_rules,
      alert_cooldowns = Map.empty,
      processing_queue = \<lparr>qitems = [], maxsize = 0\<rparr>,
      redis = Map.empty\<rparr>"

definition start_realtime_analysis :: "string \<Rightarrow> int \<Rightarrow> service \<Rightarrow> service" where
  "start_realtime_analysis site now s =
     (case active_streams s site of
        Some w \<Rightarrow> s
      | None \<Rightarrow>
          s\<lparr>active_streams := (active_streams s)
               (site \<mapsto> \<lparr>window_size = 1000,
                          events = \<lparr>items = [], maxlen = Some 1000\<rparr>,
                          metrics = Map.empty,
                          last_update = now\<rparr>)\<rparr>)"

definition stop_realtime_analysis :: "string \<Rightarrow> service \<Rightarrow> service" where
  "stop_realtime_analysis site s = s\<lparr>active_streams := (active_streams s)(site := None)\<rparr>"

text \<open>\<^verbatim>\<open>configure_thresholds\<close>: one \<^verbatim>\<open>setex\<close> with a fixed time to live of 24 hours.\<close>

definition configure_thresholds :: "string \<Rightarrow> (string \<times> rat) list \<Rightarrow> service \<Rightarrow> service" where
  "configure_thresholds site thresholds s =
     s\<lparr>redis := (redis s)(''custom_thresholds:'' @ site \<mapsto> (RThresholds thresholds, Some 86400))\<rparr>"

subsection \<open>The alert check\<close>

text \<open>
  \<^verbatim>\<open>_send_alert\<close>. \<^verbatim>\<open>AlertData\<close> is a pydantic model, not a dataclass, so
  \<^verbatim>\<open>dataclasses.asdict(alert)\<close> raises \<^verbatim>\<open>TypeError\<close>: with a websocket manager
  attached it does so while the message for \<^verbatim>\<open>send_to_site\<close> is being built, without
  one while the entry for the alert history is. The \<^verbatim>\<open>except\<close> clause of the function
  logs the exception; neither the websocket nor the store is reached and the function
  returns normally. A rule fires when its alert is created and handed to this function.
\<close>

definition send_alert :: "string \<Rightarrow> alert_data \<Rightarrow> service \<Rightarrow> service" where
  "send_alert site alert s = s"

definition cooldown_key :: "string \<Rightarrow> string \<Rightarrow> string" where
  "cooldown_key site rule_name = site @ '':'' @ rule_name"

definition cooldown_of :: "alert_rule \<Rightarrow> int" where
  "cooldown_of rule = minutes (case cooldown_minutes rule of None \<Rightarrow> 30 | Some m \<Rightarrow> m)"

definition in_cooldown :: "service \<Rightarrow> string \<Rightarrow> int \<Rightarrow> bool" where
  "in_cooldown s key current_time =
     (case alert_cooldowns s key of None \<Rightarrow> False | Some until \<Rightarrow> current_time < until)"

text \<open>
  The loop of \<^verbatim>\<open>_check_alerts\<close> over the rules, returning the alerts emitted and
  the new state. An exception of \<^verbatim>\<open>_create_alert\<close> ends the loop: the rules after
  it are not looked at, the cooldowns set before it stay.
\<close>

fun check_rules ::
  "string \<Rightarrow> streaming_window \<Rightarrow> int \<Rightarrow> (string \<times> alert_rule) list \<Rightarrow> service
     \<Rightarrow> alert_data list \<times> service" where
  "check_rules site stream current_time [] s = ([], s)"
| "check_rules site stream current_time ((rule_name, rule) # rest) s =
     (if in_cooldown s (cooldown_key site rule_name) current_time
      then check_rules site stream current_time rest s
      else if check_alert_condition stream rule current_time then
        (case create_alert site rule_name rule stream current_time of
           None \<Rightarrow> ([], s)
         | Some alert \<Rightarrow>
             (let s1 = send_alert site alert s;
                  s2 = s1\<lparr>alert_cooldowns := (alert_cooldowns s1)
                         (cooldown_key site rule_name \<mapsto> current_time + cooldown_of rule)\<rparr>;
                  r = check_rules site stream current_time rest s2
              in (alert # fst r, snd r)))
      else check_rules site stream current_time rest s)"

definition check_alerts ::
  "string \<Rightarrow> streaming_window \<Rightarrow> int \<Rightarrow> service \<Rightarrow> alert_data list \<times> service" where
  "check_alerts site stream current_time s =
     check_rules site stream current_time (alert_rules s) s"

subsection \<open>Ingest\<close>

text \<open>
  A submitted event is a dictionary; each key the code reads may be missing. The
  value under \<^verbatim>\<open>timestamp\<close> is what \<^verbatim>\<open>datetime.fromisoformat\<close> makes of it: a naive
  time, an aware time (the string carries a UTC offset), or an exception.
\<close>

datatype iso_value = IsoNaive int | IsoAware int | IsoInvalid

record raw_event =
  raw_type :: "string option"
  raw_timestamp :: "iso_value option"
  raw_data :: "event_data option"
  raw_user_id :: "string option"
  raw_session_id :: "string option"

fun fromisoformat :: "iso_value \<Rightarrow> datetime option" where
  "fromisoformat (IsoNaive t) = Some (Naive t)"
| "fromisoformat (IsoAware t) = Some (Aware t)"
| "fromisoformat IsoInvalid = None"

text \<open>The constructor call of the first loop; \<open>None\<close> is the exception.\<close>

definition make_event :: "string \<Rightarrow> int \<Rightarrow> raw_event \<Rightarrow> realtime_event option" where
  "make_event site now ev =
     (case fromisoformat (case raw_timestamp ev of None \<Rightarrow> IsoNaive now | Some v \<Rightarrow> v) of
        None \<Rightarrow> None
      | Some ts \<Rightarrow>
          Some \<lparr>site_id = site,
                event_type = (case raw_type ev of None \<Rightarrow> ''unknown'' | Some t \<Rightarrow> t),
                timestamp = ts,
                data = (case raw_data ev of None \<Rightarrow> DataDict False | Some d \<Rightarrow> d),
                user_id = raw_user_id ev,
                session_id = raw_session_id ev\<rparr>)"

fun make_events :: "string \<Rightarrow> int \<Rightarrow> raw_event list \<Rightarrow> realtime_event list option" where
  "make_events site now [] = Some []"
| "make_events site now (ev # rest) =
     (case make_event site now ev of
        None \<Rightarrow> None
      | Some e \<Rightarrow>
          (case make_events site now rest of
             None \<Rightarrow> None
           | Some es \<Rightarrow> Some (e # es)))"

text \<open>
  The second loop: one \<^verbatim>\<open>put\<close> per event. The flag says whether every \<^verbatim>\<open>put\<close>
  went through; at the first one that suspends, the queue holds the events put so far.
\<close>

fun put_all :: "'a queue \<Rightarrow> 'a list \<Rightarrow> bool \<times> 'a queue" where
  "put_all q [] = (True, q)"
| "put_all q (x # xs) =
     (case queue_put q x of
        None \<Rightarrow> (False, q)
      | Some q' \<Rightarrow> put_all q' xs)"

record instant_metrics =
  events_processed :: nat
  unique_sessions :: nat
  page_views :: nat
  conversions :: nat

definition calculate_instant_metrics :: "realtime_event list \<Rightarrow> instant_metrics" where
  "calculate_instant_metrics es =
     \<lparr>events_processed = length es,
      unique_sessions = length (session_keys es),
      page_views = length (filter is_page_view es),
      conversions = length (filter (\<lambda>e. event_type e \<in> set [''purchase'', ''signup'']) es)\<rparr>"

datatype analysis_result =
    Standard nat
  | Anomalies nat nat
  | Behavior

definition perform_analysis :: "realtime_event list \<Rightarrow> string \<Rightarrow> analysis_result" where
  "perform_analysis es analysis_type =
     (if analysis_type = ''anomaly_detection'' then Anomalies 0 (length es)
      else if analysis_type = ''user_behavior'' then Behavior
      else Standard (length es))"

text \<open>
  What \<^verbatim>\<open>process_realtime_data\<close> gives its caller: the result dictionary, the
  dictionary \<^verbatim>\<open>{"error": ...}\<close> of its \<^verbatim>\<open>except\<close> clause, or nothing yet because a
  \<^verbatim>\<open>put\<close> is suspended.
\<close>

datatype ingest_outcome =
    IngestResult nat instant_metrics analysis_result
  | IngestError
  | IngestSuspended

definition process_realtime_data ::
  "string \<Rightarrow> raw_event list \<Rightarrow> string \<Rightarrow> int \<Rightarrow> service \<Rightarrow> ingest_outcome \<times> service" where
  "process_realtime_data site event_data analysis_type now s =
     (case make_events site now event_data of
        None \<Rightarrow> (IngestError, s)
      | Some processed_events \<Rightarrow>
          (let r = put_all (processing_queue s) processed_events;
               s1 = s\<lparr>processing_queue := snd r\<rparr>
           in if fst r
              then (IngestResult (length processed_events)
                      (calculate_instant_metrics processed_events)
                      (perform_analysis processed_events analysis_type), s1)
              else (IngestSuspended, s1)))"

subsection \<open>Batch dispatch\<close>

text \<open>\<^verbatim>\<open>events_by_site\<close>: a dictionary of lists in insertion order.\<close>

fun add_event ::
  "(string \<times> realtime_event list) list \<Rightarrow> realtime_event \<Rightarrow> (string \<times> realtime_event list) list" where
  "add_event [] e = [(site_id e, [e])]"
| "add_event ((k, es) # rest) e =
     (if k = site_id e then (k, es @ [e]) # rest else (k, es) # add_event rest e)"

definition events_by_site :: "realtime_event list \<Rightarrow> (string \<times> realtime_event list) list" where
  "events_by_site batch = fold (\<lambda>e acc. add_event acc e) batch []"

definition append_events :: "streaming_window \<Rightarrow> realtime_event list \<Rightarrow> streaming_window" where
  "append_events stream es = stream\<lparr>events := fold (\<lambda>e d. deque_append d e) es (events stream)\<rparr>"

definition process_site :: "int \<Rightarrow> string \<Rightarrow> realtime_event list \<Rightarrow> service \<Rightarrow> service" where
  "process_site now site site_events s =
     (case active_streams s site of
        None \<Rightarrow> s
      | Some stream \<Rightarrow>
          s\<lparr>active_streams := (active_streams s)
               (site \<mapsto> (update_stream_metrics (append_events stream site_events) site_events now)
                          \<lparr>last_update := now\<rparr>)\<rparr>)"

definition process_events_batch :: "realtime_event list \<Rightarrow> int \<Rightarrow> service \<Rightarrow> service" where
  "process_events_batch events_batch now s =
     fold (\<lambda>g. process_site now (fst g) (snd g)) (events_by_site events_batch) s"

text \<open>
  One turn of the loop of \<^verbatim>\<open>_main_processor\<close>: nothing when the queue stays empty
  for the timeout, otherwise the first event and up to \<open>batch_size - 1\<close> more.
\<close>

definition main_processor_step :: "int \<Rightarrow> int \<Rightarrow> service \<Rightarrow> service" where
  "main_processor_step batch_size now s =
     (case qitems (processing_queue s) of
        [] \<Rightarrow> s
      | first_event # rest \<Rightarrow>
          (let n = nat (batch_size - 1) in
           process_events_batch (first_event # take n rest) now
             (s\<lparr>processing_queue := (processing_queue s)\<lparr>qitems := drop n rest\<rparr>\<rparr>)))"

subsection \<open>Forecast\<close>

record traffic_prediction =
  next_5_minutes :: rat
  confidence :: rat
  trend :: string

text \<open>
  \<^verbatim>\<open>e.event_type == 'page_view' and e.timestamp > t\<close>: the comparison is evaluated
  for page views only.
\<close>

definition page_view_after :: "int \<Rightarrow> realtime_event \<Rightarrow> bool option" where
  "page_view_after t e = (if event_type e = ''page_view'' then dt_gt (timestamp e) t else Some False)"

fun recent_page_views :: "realtime_event list \<Rightarrow> int \<Rightarrow> int list \<Rightarrow> nat list option" where
  "recent_page_views es now [] = Some []"
| "recent_page_views es now (i # rest) =
     (case filter_raise (page_view_after (now - minutes i)) es of
        None \<Rightarrow> None
      | Some pv \<Rightarrow>
          (case recent_page_views es now rest of
             None \<Rightarrow> None
           | Some counts \<Rightarrow> Some (length pv # counts)))"

text \<open>
  \<^verbatim>\<open>_generate_predictions\<close>; \<open>None\<close> is the empty dictionary, returned below the
  floor and by the \<^verbatim>\<open>except\<close> clause.
\<close>

definition generate_predictions :: "streaming_window \<Rightarrow> int \<Rightarrow> traffic_prediction option" where
  "generate_predictions stream now =
     (if length (items (events stream)) < 10 then None
      else case recent_page_views (items (events stream)) now [1, 2, 3, 4, 5] of
             None \<Rightarrow> None
           | Some counts \<Rightarrow>
               if counts \<noteq> [] then
                 Some \<lparr>next_5_minutes =
                         (of_nat (sum_list counts) / of_nat (length counts)) * (11 / 10),
                       confidence = 75 / 100,
                       trend = ''stable''\<rparr>
               else None)"

subsection \<open>Runs of the service\<close>

datatype operation =
    StartSession string int
  | StopSession string
  | Ingest string "raw_event list" string int
  | Dispatch int int
  | AlertCheck string int
  | ConfigureThresholds string "(string \<times> rat) list"

fun step :: "operation \<Rightarrow> service \<Rightarrow> service" where
  "step (StartSession site now) s = start_realtime_analysis site now s"
| "step (StopSession site) s = stop_realtime_analysis site s"
| "step (Ingest site evs analysis_type now) s = snd (process_realtime_data site evs analysis_type now s)"
| "step (Dispatch batch_size now) s = main_processor_step batch_size now s"
| "step (AlertCheck site now) s =
     (case active_streams s site of
        None \<Rightarrow> s
      | Some stream \<Rightarrow> snd (check_alerts site stream now s))"
| "step (ConfigureThresholds site thresholds) s = configure_thresholds site thresholds s"

definition run :: "operation list \<Rightarrow> service \<Rightarrow> service" where
  "run ops s = fold step ops s"

section \<open>Properties\<close>

subsection \<open>Notions used in the statements\<close>

text \<open>The names of the rules that fired in a check.\<close>

definition fired :: "alert_data list \<Rightarrow> string set" where
  "fired alerts = alert_type ` set alerts"

text \<open>The window of a site in a state of the service; a fresh one when there is none.\<close>

definition fresh_window :: "int \<Rightarrow> streaming_window" where
  "fresh_window now =
     \<lparr>window_size = 1000, events = \<lparr>items = [], maxlen = Some 1000\<rparr>,
      metrics = Map.empty, last_update = now\<rparr>"

definition stream_of :: "service \<Rightarrow> string \<Rightarrow> streaming_window" where
  "stream_of s site = (case active_streams s site of None \<Rightarrow> fresh_window 0 | Some w \<Rightarrow> w)"

text \<open>The baseline of a relative rule: what \<^verbatim>\<open>_check_alert_condition\<close> asks
  \<^verbatim>\<open>_get_historical_average\<close> for.\<close>

definition window_of :: "alert_rule \<Rightarrow> int" where
  "window_of rule = (case window_minutes rule of None \<Rightarrow> 60 | Some w \<Rightarrow> w)"

definition baseline :: "streaming_window \<Rightarrow> alert_rule \<Rightarrow> string \<Rightarrow> int \<Rightarrow> rat" where
  "baseline stream rule mn now = get_historical_average stream mn (window_of rule) now"

text \<open>
  The formula of \<open>conversion_rate\<close> in \<^verbatim>\<open>_update_stream_metrics\<close>, over any list of
  events: what a baseline of this metric over a trailing window would be.
\<close>

definition conversion_rate_of :: "realtime_event list \<Rightarrow> rat" where
  "conversion_rate_of es = of_nat (length (filter is_conversion es)) / of_nat (max (length es) 1)"

text \<open>Invariants of the windows of a state.\<close>

definition window_bounded :: "streaming_window \<Rightarrow> bool" where
  "window_bounded w = (maxlen (events w) = Some 1000 \<and> length (items (events w)) \<le> 1000)"

definition streams_bounded :: "service \<Rightarrow> bool" where
  "streams_bounded s = (\<forall>site w. active_streams s site = Some w \<longrightarrow> window_bounded w)"

definition rate_bounded :: "metric_map \<Rightarrow> string \<Rightarrow> bool" where
  "rate_bounded m name = (0 \<le> metric_get m name \<and> metric_get m name \<le> 1)"

definition rates_bounded :: "streaming_window \<Rightarrow> bool" where
  "rates_bounded w =
     (rate_bounded (metrics w) ''bounce_rate'' \<and>
      rate_bounded (metrics w) ''conversion_rate'' \<and>
      rate_bounded (metrics w) ''error_rate'')"

definition streams_rates_bounded :: "service \<Rightarrow> bool" where
  "streams_rates_bounded s = (\<forall>site w. active_streams s site = Some w \<longrightarrow> rates_bounded w)"

definition cooldowns_nonneg :: "(string \<times> alert_rule) list \<Rightarrow> bool" where
  "cooldowns_nonneg rules = list_all (\<lambda>p. 0 \<le> cooldown_of (snd p)) rules"

text \<open>A submitted event is well formed when its timestamp, if it has one, can be parsed.\<close>

definition well_formed :: "raw_event \<Rightarrow> bool" where
  "well_formed ev = (raw_timestamp ev \<noteq> Some IsoInvalid)"

text \<open>The state after a list of events went into the queue.\<close>

definition enqueue :: "realtime_event list \<Rightarrow> service \<Rightarrow> service" where
  "enqueue es s =
     s\<lparr>processing_queue := (processing_queue s)\<lparr>qitems := qitems (processing_queue s) @ es\<rparr>\<rparr>"

text \<open>Every page view of a buffer has a naive timestamp.\<close>

fun is_naive :: "datetime \<Rightarrow> bool" where
  "is_naive (Naive t) = True"
| "is_naive (Aware t) = False"

definition page_views_comparable :: "realtime_event list \<Rightarrow> bool" where
  "page_views_comparable es =
     list_all (\<lambda>e. event_type e \<noteq> ''page_view'' \<or> is_naive (timestamp e)) es"

subsection \<open>Example inputs\<close>

definition visit :: "string \<Rightarrow> iso_value \<Rightarrow> string option \<Rightarrow> raw_event" where
  "visit ty ts sid =
     \<lparr>raw_type = Some ty, raw_timestamp = Some ts, raw_data = None,
      raw_user_id = None, raw_session_id = sid\<rparr>"

text \<open>A session starts and one page view of one browser session arrives, all at time 0.\<close>

definition one_visit :: "operation list" where
  "one_visit =
     [StartSession ''site-1'' 0,
      Ingest ''site-1'' [visit ''page_view'' (IsoNaive 0) (Some ''s1'')] ''standard'' 0,
      Dispatch 100 0]"

text \<open>Five minutes later an event without a session arrives that carries the old time 0.\<close>

definition late_visit :: "operation list" where
  "late_visit =
     one_visit @
     [Ingest ''site-1'' [visit ''page_view'' (IsoNaive 0) None] ''standard'' (minutes 5),
      Dispatch 100 (minutes 5)]"

text \<open>Seven page views of six browser sessions, five of them with one page view.\<close>

definition six_sessions :: "operation list" where
  "six_sessions =
     [StartSession ''site-1'' 0,
      Ingest ''site-1''
        [visit ''page_view'' (IsoNaive 0) (Some ''a''),
         visit ''page_view'' (IsoNaive 0) (Some ''a''),
         visit ''page_view'' (IsoNaive 0) (Some ''b''),
         visit ''page_view'' (IsoNaive 0) (Some ''c''),
         visit ''page_view'' (IsoNaive 0) (Some ''d''),
         visit ''page_view'' (IsoNaive 0) (Some ''e''),
         visit ''page_view'' (IsoNaive 0) (Some ''f'')] ''standard'' 0,
      Dispatch 100 0]"

text \<open>
  One batch, ten minutes after the start: two purchases that carry the time 0, and one
  purchase and four page views that carry the time of the batch, all within the thirty
  minutes of the rule \<open>conversion_drop\<close>.
\<close>

definition conversion_decline :: "operation list" where
  "conversion_decline =
     [StartSession ''site-1'' 0,
      Ingest ''site-1''
        [visit ''purchase'' (IsoNaive 0) None,
         visit ''purchase'' (IsoNaive 0) None,
         visit ''purchase'' (IsoNaive (minutes 10)) None,
         visit ''page_view'' (IsoNaive (minutes 10)) None,
         visit ''page_view'' (IsoNaive (minutes 10)) None,
         visit ''page_view'' (IsoNaive (minutes 10)) None,
         visit ''page_view'' (IsoNaive (minutes 10)) None] ''standard'' (minutes 10),
      Dispatch 100 (minutes 10)]"

text \<open>Ten page views whose timestamps carry a UTC offset, and ten that carry none.\<close>

definition ten_views :: "iso_value \<Rightarrow> operation list" where
  "ten_views ts =
     [StartSession ''site-1'' 0,
      Ingest ''site-1'' (replicate 10 (visit ''page_view'' ts None)) ''standard'' 0,
      Dispatch 100 0]"

subsection \<open>Evaluation of the examples\<close>

lemmas run_defs =
  run_def init_service_def start_realtime_analysis_def stop_realtime_analysis_def
  process_realtime_data_def make_event_def queue_put_def queue_full_def
  calculate_instant_metrics_def perform_analysis_def
  main_processor_step_def process_events_batch_def events_by_site_def process_site_def
  append_events_def deque_append_def update_stream_metrics_def recent_events_of_def
  minutes_def session_keys_def user_keys_def bounced_sessions_def session_events_def
  is_page_view_def is_conversion_def is_error_event_def List.map_filter_def Let_def
  stream_of_def fresh_window_def visit_def

lemmas alert_defs =
  check_alerts_def in_cooldown_def cooldown_key_def cooldown_of_def check_alert_condition_def
  get_historical_average_def create_alert_def send_alert_def
  metric_get_def fired_def setup_alert_rules_def traffic_spike_def traffic_drop_def
  high_bounce_rate_def conversion_drop_def server_error_spike_def unusual_user_behavior_def
  configure_thresholds_def baseline_def window_of_def

lemma one_visit_registered:
  "active_streams (run one_visit init_service) ''site-1'' \<noteq> None"
  by (simp add: one_visit_def run_defs)

subsection \<open>What each operation leaves unchanged\<close>

lemma update_stream_metrics_events:
  "events (update_stream_metrics stream evs now) = events stream"
  by (simp add: update_stream_metrics_def Let_def split: option.splits)

lemma append_events_metrics: "metrics (append_events w es) = metrics w"
  by (simp add: append_events_def)

lemma process_realtime_data_streams:
  "active_streams (snd (process_realtime_data site evs ty now s)) = active_streams s"
  by (simp add: process_realtime_data_def Let_def split: option.splits)

lemma check_rules_streams:
  "active_streams (snd (check_rules site stream now rules s)) = active_streams s"
  by (induction rules arbitrary: s)
     (auto simp: Let_def send_alert_def split: option.splits)

subsection \<open>The window buffer is bounded\<close>

lemma deque_append_maxlen: "maxlen (deque_append d x) = maxlen d"
  by (simp add: deque_append_def Let_def split: option.splits)

lemma deque_append_length:
  "maxlen d = Some m \<Longrightarrow> length (items d) \<le> m \<Longrightarrow> length (items (deque_append d x)) \<le> m"
  by (simp add: deque_append_def Let_def)

lemma deque_append_full:
  "maxlen d = Some m \<Longrightarrow> length (items d) = m \<Longrightarrow> items (deque_append d x) = tl (items d @ [x])"
  by (simp add: deque_append_def Let_def)

lemma deque_append_room:
  "maxlen d = Some m \<Longrightarrow> length (items d) < m \<Longrightarrow> items (deque_append d x) = items d @ [x]"
  by (simp add: deque_append_def Let_def)

lemma fold_deque_append_bounded:
  "maxlen d = Some m \<Longrightarrow> length (items d) \<le> m \<Longrightarrow>
   maxlen (fold (\<lambda>e d. deque_append d e) es d) = Some m \<and>
   length (items (fold (\<lambda>e d. deque_append d e) es d)) \<le> m"
proof (induction es arbitrary: d)
  case Nil
  then show ?case by simp
next
  case (Cons e es)
  have "maxlen (deque_append d e) = Some m"
    using Cons.prems(1) by (simp add: deque_append_maxlen)
  moreover have "length (items (deque_append d e)) \<le> m"
    using Cons.prems by (rule deque_append_length)
  ultimately show ?case using Cons.IH by simp
qed

lemma append_events_bounded: "window_bounded w \<Longrightarrow> window_bounded (append_events w es)"
  using fold_deque_append_bounded [of "events w" 1000 es]
  by (simp add: window_bounded_def append_events_def)

lemma process_site_bounded:
  assumes "streams_bounded s"
  shows "streams_bounded (process_site now site es s)"
proof (cases "active_streams s site")
  case None
  then show ?thesis using assms by (simp add: process_site_def)
next
  case (Some stream)
  then have "window_bounded stream" using assms by (simp add: streams_bounded_def)
  then have "window_bounded (append_events stream es)" by (rule append_events_bounded)
  then have "window_bounded
      ((update_stream_metrics (append_events stream es) es now)\<lparr>last_update := now\<rparr>)"
    by (simp add: window_bounded_def update_stream_metrics_events)
  then show ?thesis using assms Some
    by (simp add: process_site_def streams_bounded_def)
qed

lemma fold_process_site_bounded:
  "streams_bounded s \<Longrightarrow> streams_bounded (fold (\<lambda>g. process_site now (fst g) (snd g)) gs s)"
  by (induction gs arbitrary: s) (simp_all add: process_site_bounded)

lemma main_processor_step_bounded:
  assumes "streams_bounded s"
  shows "streams_bounded (main_processor_step bs now s)"
proof (cases "qitems (processing_queue s)")
  case Nil
  then show ?thesis using assms by (simp add: main_processor_step_def)
next
  case (Cons e rest)
  have "streams_bounded
          (s\<lparr>processing_queue := (processing_queue s)\<lparr>qitems := drop (nat (bs - 1)) rest\<rparr>\<rparr>)"
    using assms by (simp add: streams_bounded_def)
  then show ?thesis using Cons
    by (simp add: main_processor_step_def Let_def process_events_batch_def
        fold_process_site_bounded)
qed

lemma step_bounded:
  assumes "streams_bounded s"
  shows "streams_bounded (step op s)"
proof (cases op)
  case (StartSession site now)
  then show ?thesis using assms
    by (auto simp: start_realtime_analysis_def streams_bounded_def window_bounded_def
        split: option.splits)
next
  case (StopSession site)
  then show ?thesis using assms
    by (auto simp: stop_realtime_analysis_def streams_bounded_def)
next
  case (Ingest site evs ty now)
  then show ?thesis using assms
    by (simp add: streams_bounded_def process_realtime_data_streams)
next
  case (Dispatch bs now)
  then show ?thesis using assms by (simp add: main_processor_step_bounded)
next
  case (AlertCheck site now)
  then show ?thesis using assms
    by (simp add: streams_bounded_def check_alerts_def check_rules_streams split: option.splits)
next
  case (ConfigureThresholds site th)
  then show ?thesis using assms
    by (simp add: streams_bounded_def configure_thresholds_def)
qed

lemma run_bounded: "streams_bounded s \<Longrightarrow> streams_bounded (run ops s)"
  unfolding run_def by (induction ops arbitrary: s) (simp_all add: step_bounded)

lemma init_bounded: "streams_bounded init_service"
  by (simp add: streams_bounded_def init_service_def)

text \<open>
  Claim C3 (bounded window). After any sequence of session starts and stops, ingests,
  batch dispatches, alert checks and threshold configurations, the buffer of every
  tenant's window holds at most 1000 events; an append to a full buffer evicts the
  oldest event, and an append to a buffer with room keeps all of them.
\<close>

theorem bounded_window:
  assumes "active_streams (run ops init_service) site = Some w"
  shows "length (items (events w)) \<le> 1000 \<and>
         length (items (deque_append (events w) e)) \<le> 1000 \<and>
         (length (items (events w)) = 1000 \<longrightarrow>
            items (deque_append (events w) e) = tl (items (events w)) @ [e]) \<and>
         (length (items (events w)) < 1000 \<longrightarrow>
            items (deque_append (events w) e) = items (events w) @ [e])"
proof -
  have "streams_bounded (run ops init_service)" using init_bounded by (rule run_bounded)
  then have wb: "maxlen (events w) = Some 1000" "length (items (events w)) \<le> 1000"
    using assms by (simp_all add: streams_bounded_def window_bounded_def)
  have a: "length (items (deque_append (events w) e)) \<le> 1000"
    using wb by (rule deque_append_length)
  have b: "items (deque_append (events w) e) = tl (items (events w)) @ [e]"
    if full: "length (items (events w)) = 1000"
  proof -
    have "items (events w) \<noteq> []" using full by auto
    then show ?thesis using deque_append_full [OF wb(1) full, of e] by simp
  qed
  have c: "items (deque_append (events w) e) = items (events w) @ [e]"
    if room: "length (items (events w)) < 1000"
    using wb(1) room by (rule deque_append_room)
  show ?thesis using wb(2) a b c by blast
qed

theorem bounded_window_witness:
  "\<exists>w. active_streams (run one_visit init_service) ''site-1'' = Some w \<and>
       length (items (events w)) \<le> 1000 \<and>
       length (items (deque_append (events w)
          \<lparr>site_id = ''site-1'', event_type = ''click'', timestamp = Naive 1,
           data = DataDict False, user_id = None, session_id = None\<rparr>)) \<le> 1000"
proof -
  obtain w where w: "active_streams (run one_visit init_service) ''site-1'' = Some w"
    using one_visit_registered by blast
  from bounded_window [OF w] show ?thesis using w by blast
qed

subsection \<open>The rates stay between 0 and 1\<close>

lemma filter_raise_length: "filter_raise p xs = Some ys \<Longrightarrow> length ys \<le> length xs"
proof (induction xs arbitrary: ys)
  case Nil
  then show ?case by simp
next
  case (Cons x xs)
  then show ?case by (fastforce split: option.splits if_splits)
qed

lemma ratio_bounded:
  "a \<le> b \<Longrightarrow> 0 \<le> (of_nat a :: rat) / of_nat b \<and> (of_nat a :: rat) / of_nat b \<le> 1"
  by (cases "b = 0") (simp_all add: divide_le_eq_1)

lemma bounced_le: "bounced_sessions es \<le> length (session_keys es)"
  by (simp add: bounced_sessions_def)

lemma rate_bounded_upd_other:
  "name \<noteq> k \<Longrightarrow> rate_bounded (m(k \<mapsto> v)) name = rate_bounded m name"
  by (simp add: rate_bounded_def metric_get_def)

lemma rate_bounded_upd_same:
  "0 \<le> v \<Longrightarrow> v \<le> 1 \<Longrightarrow> rate_bounded (m(k \<mapsto> v)) k"
  by (simp add: rate_bounded_def metric_get_def)

lemma rate_bounded_ratio:
  "a \<le> b \<Longrightarrow> rate_bounded (m(k \<mapsto> of_nat a / of_nat b)) k"
  using ratio_bounded [of a b] by (simp add: rate_bounded_upd_same)

lemma update_stream_metrics_rates:
  assumes "rates_bounded stream"
  shows "rates_bounded (update_stream_metrics stream evs now)"
proof (cases "recent_events_of stream (now - minutes 1)")
  case None
  then show ?thesis using assms by (simp add: update_stream_metrics_def)
next
  case (Some recent)
  define m1 where "m1 = (metrics stream)
                 (''events_per_minute'' \<mapsto> of_nat (length recent),
                  ''page_views_per_minute'' \<mapsto> of_nat (length (filter is_page_view recent)),
                  ''unique_sessions'' \<mapsto> of_nat (length (session_keys recent)),
                  ''active_users'' \<mapsto> of_nat (length (user_keys recent)))"
  define m2 where "m2 = (if 0 < length (session_keys recent)
                     then m1(''bounce_rate'' \<mapsto>
                            of_nat (bounced_sessions recent) / of_nat (length (session_keys recent)))
                     else m1)"
  define m3 where "m3 = m2(''conversion_rate'' \<mapsto>
                         of_nat (length (filter is_conversion recent)) / of_nat (max (length recent) 1))"
  have b1: "rate_bounded m1 ''bounce_rate''" and c1: "rate_bounded m1 ''conversion_rate''"
    and e1: "rate_bounded m1 ''error_rate''"
    using assms by (simp_all add: m1_def rates_bounded_def rate_bounded_upd_other)
  have b2: "rate_bounded m2 ''bounce_rate''"
    using b1 by (simp add: m2_def rate_bounded_ratio bounced_le)
  have e2: "rate_bounded m2 ''error_rate''"
    using e1 by (simp add: m2_def rate_bounded_upd_other)
  have le: "length (filter is_conversion recent) \<le> max (length recent) 1"
    by (simp add: le_max_iff_disj)
  have b3: "rate_bounded m3 ''bounce_rate''"
    using b2 by (simp add: m3_def rate_bounded_upd_other)
  have c3: "rate_bounded m3 ''conversion_rate''"
    unfolding m3_def using le by (rule rate_bounded_ratio)
  have e3: "rate_bounded m3 ''error_rate''"
    using e2 by (simp add: m3_def rate_bounded_upd_other)
  show ?thesis
  proof (cases "filter_raise is_error_event recent")
    case None
    then have "metrics (update_stream_metrics stream evs now) = m3"
      using Some by (simp add: update_stream_metrics_def Let_def m1_def m2_def m3_def)
    then show ?thesis using b3 c3 e3 by (simp add: rates_bounded_def)
  next
    case (Some errors)
    then have le2: "length errors \<le> max (length recent) 1"
      using filter_raise_length [OF Some] by simp
    have "metrics (update_stream_metrics stream evs now) =
            m3(''error_rate'' \<mapsto> of_nat (length errors) / of_nat (max (length recent) 1))"
      using Some \<open>recent_events_of stream (now - minutes 1) = Some recent\<close>
      by (simp add: update_stream_metrics_def Let_def m1_def m2_def m3_def)
    then show ?thesis using b3 c3 le2
      by (simp add: rates_bounded_def rate_bounded_upd_other rate_bounded_ratio)
  qed
qed

lemma process_site_rates:
  assumes "streams_rates_bounded s"
  shows "streams_rates_bounded (process_site now site es s)"
proof (cases "active_streams s site")
  case None
  then show ?thesis using assms by (simp add: process_site_def)
next
  case (Some stream)
  then have "rates_bounded stream" using assms by (simp add: streams_rates_bounded_def)
  then have "rates_bounded (append_events stream es)"
    by (simp add: rates_bounded_def append_events_metrics)
  then have "rates_bounded (update_stream_metrics (append_events stream es) es now)"
    by (rule update_stream_metrics_rates)
  then have "rates_bounded ((update_stream_metrics (append_events stream es) es now)\<lparr>last_update := now\<rparr>)"
    by (simp add: rates_bounded_def)
  then show ?thesis using assms Some
    by (simp add: process_site_def streams_rates_bounded_def)
qed

lemma fold_process_site_rates:
  "streams_rates_bounded s \<Longrightarrow>
   streams_rates_bounded (fold (\<lambda>g. process_site now (fst g) (snd g)) gs s)"
  by (induction gs arbitrary: s) (simp_all add: process_site_rates)

lemma main_processor_step_rates:
  assumes "streams_rates_bounded s"
  shows "streams_rates_bounded (main_processor_step bs now s)"
proof (cases "qitems (processing_queue s)")
  case Nil
  then show ?thesis using assms by (simp add: main_processor_step_def)
next
  case (Cons e rest)
  have "streams_rates_bounded
          (s\<lparr>processing_queue := (processing_queue s)\<lparr>qitems := drop (nat (bs - 1)) rest\<rparr>\<rparr>)"
    using assms by (simp add: streams_rates_bounded_def)
  then show ?thesis using Cons
    by (simp add: main_processor_step_def Let_def process_events_batch_def fold_process_site_rates)
qed

lemma metric_get_empty: "metric_get Map.empty name = 0"
  by (simp add: metric_get_def)

lemma step_rates:
  assumes "streams_rates_bounded s"
  shows "streams_rates_bounded (step op s)"
proof (cases op)
  case (StartSession site now)
  then show ?thesis using assms
    by (auto simp: start_realtime_analysis_def streams_rates_bounded_def rates_bounded_def
        rate_bounded_def metric_get_empty split: option.splits)
next
  case (StopSession site)
  then show ?thesis using assms
    by (auto simp: stop_realtime_analysis_def streams_rates_bounded_def)
next
  case (Ingest site evs ty now)
  then show ?thesis using assms
    by (simp add: streams_rates_bounded_def process_realtime_data_streams)
next
  case (Dispatch bs now)
  then show ?thesis using assms by (simp add: main_processor_step_rates)
next
  case (AlertCheck site now)
  then show ?thesis using assms
    by (simp add: streams_rates_bounded_def check_alerts_def check_rules_streams split: option.splits)
next
  case (ConfigureThresholds site th)
  then show ?thesis using assms
    by (simp add: streams_rates_bounded_def configure_thresholds_def)
qed

lemma run_rates: "streams_rates_bounded s \<Longrightarrow> streams_rates_bounded (run ops s)"
  unfolding run_def by (induction ops arbitrary: s) (simp_all add: step_rates)

lemma init_rates: "streams_rates_bounded init_service"
  by (simp add: streams_rates_bounded_def init_service_def)

text \<open>
  Claim C4 (rate bounds). In every state the service reaches from its initial state,
  whatever events were submitted and however often the metrics were recomputed, the
  metrics \<open>bounce_rate\<close>, \<open>conversion_rate\<close> and \<open>error_rate\<close> of every tenant window
  lie in the closed interval from 0 to 1.
\<close>

theorem rate_bounds:
  assumes "active_streams (run ops init_service) site = Some w"
  shows "0 \<le> metric_get (metrics w) ''bounce_rate'' \<and>
         metric_get (metrics w) ''bounce_rate'' \<le> 1 \<and>
         0 \<le> metric_get (metrics w) ''conversion_rate'' \<and>
         metric_get (metrics w) ''conversion_rate'' \<le> 1 \<and>
         0 \<le> metric_get (metrics w) ''error_rate'' \<and>
         metric_get (metrics w) ''error_rate'' \<le> 1"
proof -
  have "streams_rates_bounded (run ops init_service)" using init_rates by (rule run_rates)
  then have "rates_bounded w" using assms by (simp add: streams_rates_bounded_def)
  then show ?thesis by (simp add: rates_bounded_def rate_bounded_def)
qed

theorem rate_bounds_witness:
  "\<exists>w. active_streams (run one_visit init_service) ''site-1'' = Some w \<and>
       0 \<le> metric_get (metrics w) ''bounce_rate'' \<and>
       metric_get (metrics w) ''bounce_rate'' \<le> 1 \<and>
       0 \<le> metric_get (metrics w) ''conversion_rate'' \<and>
       metric_get (metrics w) ''conversion_rate'' \<le> 1 \<and>
       0 \<le> metric_get (metrics w) ''error_rate'' \<and>
       metric_get (metrics w) ''error_rate'' \<le> 1"
proof -
  obtain w where w: "active_streams (run one_visit init_service) ''site-1'' = Some w"
    using one_visit_registered by blast
  from rate_bounds [OF w] show ?thesis using w by blast
qed

subsection \<open>Cooldown of the alert rules\<close>

lemma cooldown_key_inject: "cooldown_key site a = cooldown_key site b \<Longrightarrow> a = b"
  by (simp add: cooldown_key_def)

lemma create_alert_type:
  "create_alert site rule_name rule stream now = Some alert \<Longrightarrow> alert_type alert = rule_name"
  by (auto simp: create_alert_def split: option.splits)

lemma send_alert_cooldowns: "alert_cooldowns (send_alert site alert s) = alert_cooldowns s"
  by (simp add: send_alert_def)

lemma send_alert_rules: "alert_rules (send_alert site alert s) = alert_rules s"
  by (simp add: send_alert_def)

lemma check_rules_suppressed:
  "alert_cooldowns s (cooldown_key site R) = Some c \<Longrightarrow> now < c \<Longrightarrow>
   R \<notin> fired (fst (check_rules site stream now rules s))"
proof (induction rules arbitrary: s)
  case Nil
  then show ?case by (simp add: fired_def)
next
  case (Cons p rules)
  obtain rule_name rule where p: "p = (rule_name, rule)" by (cases p)
  show ?case
  proof (cases "in_cooldown s (cooldown_key site rule_name) now")
    case True
    then show ?thesis using Cons p by simp
  next
    case False
    then have ne: "rule_name \<noteq> R" using Cons.prems by (auto simp: in_cooldown_def)
    show ?thesis
    proof (cases "check_alert_condition stream rule now")
      case cond: True
      show ?thesis
      proof (cases "create_alert site rule_name rule stream now")
        case None
        then show ?thesis using False cond p by (simp add: fired_def)
      next
        case (Some alert)
        define s2 where "s2 = (send_alert site alert s)\<lparr>alert_cooldowns :=
            (alert_cooldowns (send_alert site alert s))
              (cooldown_key site rule_name \<mapsto> now + cooldown_of rule)\<rparr>"
        have "cooldown_key site rule_name \<noteq> cooldown_key site R"
          using ne cooldown_key_inject by blast
        then have "alert_cooldowns s2 (cooldown_key site R) = Some c"
          using Cons.prems(1) by (simp add: s2_def send_alert_cooldowns)
        then have "R \<notin> fired (fst (check_rules site stream now rules s2))"
          using Cons.prems(2) by (rule Cons.IH)
        moreover have "alert_type alert \<noteq> R" using create_alert_type [OF Some] ne by simp
        ultimately show ?thesis using False cond Some p
          by (simp add: Let_def s2_def fired_def)
      qed
    next
      case nocond: False
      then show ?thesis using False Cons p by simp
    qed
  qed
qed

lemma check_rules_cooldown_mono:
  "cooldowns_nonneg rules \<Longrightarrow> alert_cooldowns s k = Some c \<Longrightarrow>
   \<exists>c'. alert_cooldowns (snd (check_rules site stream now rules s)) k = Some c' \<and> c \<le> c'"
proof (induction rules arbitrary: s c)
  case Nil
  then show ?case by simp
next
  case (Cons p rules)
  obtain rule_name rule where p: "p = (rule_name, rule)" by (cases p)
  have nn: "cooldowns_nonneg rules" and cd: "0 \<le> cooldown_of rule"
    using Cons.prems(1) p by (simp_all add: cooldowns_nonneg_def)
  show ?case
  proof (cases "in_cooldown s (cooldown_key site rule_name) now")
    case True
    then show ?thesis using Cons.IH [OF nn Cons.prems(2)] p by simp
  next
    case False
    show ?thesis
    proof (cases "check_alert_condition stream rule now")
      case cond: True
      show ?thesis
      proof (cases "create_alert site rule_name rule stream now")
        case None
        then show ?thesis using False cond p Cons.prems(2) by simp
      next
        case (Some alert)
        define s2 where "s2 = (send_alert site alert s)\<lparr>alert_cooldowns :=
            (alert_cooldowns (send_alert site alert s))
              (cooldown_key site rule_name \<mapsto> now + cooldown_of rule)\<rparr>"
        have "\<exists>c2. alert_cooldowns s2 k = Some c2 \<and> c \<le> c2"
        proof (cases "k = cooldown_key site rule_name")
          case True
          then have "c \<le> now" using False Cons.prems(2) by (simp add: in_cooldown_def)
          then show ?thesis using True cd by (simp add: s2_def)
        next
          case False
          then show ?thesis using Cons.prems(2) by (simp add: s2_def send_alert_cooldowns)
        qed
        then obtain c2 where c2: "alert_cooldowns s2 k = Some c2" "c \<le> c2" by blast
        obtain c' where "alert_cooldowns (snd (check_rules site stream now rules s2)) k = Some c'"
          "c2 \<le> c'" using Cons.IH [OF nn c2(1)] by blast
        then show ?thesis using False cond Some p c2(2)
          by (auto simp: Let_def s2_def)
      qed
    next
      case nocond: False
      then show ?thesis using False Cons.IH [OF nn Cons.prems(2)] p by simp
    qed
  qed
qed

lemma check_rules_key_unchanged:
  "R \<notin> fst ` set rules \<Longrightarrow>
   alert_cooldowns (snd (check_rules site stream now rules s)) (cooldown_key site R) =
   alert_cooldowns s (cooldown_key site R)"
proof (induction rules arbitrary: s)
  case Nil
  then show ?case by simp
next
  case (Cons p rules)
  obtain rule_name rule where p: "p = (rule_name, rule)" by (cases p)
  have ne: "cooldown_key site rule_name \<noteq> cooldown_key site R"
    using Cons.prems p cooldown_key_inject by auto
  have rest: "R \<notin> fst ` set rules" using Cons.prems by simp
  note IH = Cons.IH [OF rest]
  show ?case
  proof (cases "in_cooldown s (cooldown_key site rule_name) now")
    case True
    then show ?thesis using IH p by simp
  next
    case False
    show ?thesis
    proof (cases "check_alert_condition stream rule now")
      case cond: True
      show ?thesis
      proof (cases "create_alert site rule_name rule stream now")
        case None
        then show ?thesis using False cond p by simp
      next
        case (Some alert)
        define s2 where "s2 = (send_alert site alert s)\<lparr>alert_cooldowns :=
            (alert_cooldowns (send_alert site alert s))
              (cooldown_key site rule_name \<mapsto> now + cooldown_of rule)\<rparr>"
        have "alert_cooldowns s2 (cooldown_key site R) = alert_cooldowns s (cooldown_key site R)"
          using ne by (simp add: s2_def send_alert_cooldowns)
        then show ?thesis using IH [of s2] False cond Some p
          by (simp add: Let_def s2_def)
      qed
    next
      case nocond: False
      then show ?thesis using False IH p by simp
    qed
  qed
qed

lemma check_rules_fired_sets_cooldown:
  "distinct (map fst rules) \<Longrightarrow> R \<in> fired (fst (check_rules site stream now rules s)) \<Longrightarrow>
   \<exists>r. (R, r) \<in> set rules \<and>
       alert_cooldowns (snd (check_rules site stream now rules s)) (cooldown_key site R) =
         Some (now + cooldown_of r)"
proof (induction rules arbitrary: s)
  case Nil
  then show ?case by (simp add: fired_def)
next
  case (Cons p rules)
  obtain rule_name rule where p: "p = (rule_name, rule)" by (cases p)
  have dist: "distinct (map fst rules)" and fresh: "rule_name \<notin> fst ` set rules"
    using Cons.prems(1) p by simp_all
  show ?case
  proof (cases "in_cooldown s (cooldown_key site rule_name) now")
    case True
    then have "R \<in> fired (fst (check_rules site stream now rules s))"
      using Cons.prems(2) p by simp
    from Cons.IH [OF dist this] show ?thesis using True p by auto
  next
    case False
    show ?thesis
    proof (cases "check_alert_condition stream rule now")
      case cond: True
      show ?thesis
      proof (cases "create_alert site rule_name rule stream now")
        case None
        then show ?thesis using False cond p Cons.prems(2) by (simp add: fired_def)
      next
        case (Some alert)
        define s2 where "s2 = (send_alert site alert s)\<lparr>alert_cooldowns :=
            (alert_cooldowns (send_alert site alert s))
              (cooldown_key site rule_name \<mapsto> now + cooldown_of rule)\<rparr>"
        have res: "check_rules site stream now (p # rules) s =
                (alert # fst (check_rules site stream now rules s2),
                 snd (check_rules site stream now rules s2))"
          using False cond Some p by (simp add: Let_def s2_def)
        show ?thesis
        proof (cases "R = rule_name")
          case True
          have "alert_cooldowns s2 (cooldown_key site R) = Some (now + cooldown_of rule)"
            using True by (simp add: s2_def)
          moreover have "R \<notin> fst ` set rules" using True fresh by simp
          ultimately have "alert_cooldowns (snd (check_rules site stream now rules s2))
                (cooldown_key site R) = Some (now + cooldown_of rule)"
            by (simp add: check_rules_key_unchanged)
          then show ?thesis using res True p by auto
        next
          case False
          then have "alert_type alert \<noteq> R" using create_alert_type [OF Some] by simp
          then have "R \<in> fired (fst (check_rules site stream now rules s2))"
            using Cons.prems(2) res by (simp add: fired_def)
          from Cons.IH [OF dist this] show ?thesis using res by auto
        qed
      qed
    next
      case nocond: False
      then have "R \<in> fired (fst (check_rules site stream now rules s))"
        using Cons.prems(2) False p by simp
      from Cons.IH [OF dist this] show ?thesis using False nocond p by auto
    qed
  qed
qed

lemma check_rules_rules:
  "alert_rules (snd (check_rules site stream now rules s)) = alert_rules s"
  by (induction rules arbitrary: s)
     (auto simp: Let_def send_alert_def split: option.splits)

lemma process_site_other:
  "alert_rules (process_site now site es s) = alert_rules s \<and>
   alert_cooldowns (process_site now site es s) = alert_cooldowns s \<and>
   redis (process_site now site es s) = redis s"
  by (simp add: process_site_def split: option.splits)

lemma process_events_batch_other:
  "alert_rules (process_events_batch batch now s) = alert_rules s \<and>
   alert_cooldowns (process_events_batch batch now s) = alert_cooldowns s \<and>
   redis (process_events_batch batch now s) = redis s"
proof -
  have "alert_rules (fold (\<lambda>g. process_site now (fst g) (snd g)) gs s) = alert_rules s \<and>
        alert_cooldowns (fold (\<lambda>g. process_site now (fst g) (snd g)) gs s) = alert_cooldowns s \<and>
        redis (fold (\<lambda>g. process_site now (fst g) (snd g)) gs s) = redis s" for gs
    by (induction gs arbitrary: s) (simp_all add: process_site_other)
  then show ?thesis by (simp add: process_events_batch_def)
qed

lemma main_processor_step_other:
  "alert_rules (main_processor_step bs now s) = alert_rules s \<and>
   alert_cooldowns (main_processor_step bs now s) = alert_cooldowns s \<and>
   redis (main_processor_step bs now s) = redis s"
  by (simp add: main_processor_step_def Let_def process_events_batch_other split: list.splits)

lemma step_rules: "alert_rules (step op s) = alert_rules s"
  by (cases op)
     (auto simp: start_realtime_analysis_def stop_realtime_analysis_def
        process_realtime_data_def Let_def main_processor_step_other configure_thresholds_def
        check_alerts_def check_rules_rules split: option.splits)

lemma run_rules: "alert_rules (run ops s) = alert_rules s"
  unfolding run_def by (induction ops arbitrary: s) (simp_all add: step_rules)

lemma step_cooldown_mono:
  assumes "cooldowns_nonneg (alert_rules s)" and "alert_cooldowns s k = Some c"
  shows "\<exists>c'. alert_cooldowns (step op s) k = Some c' \<and> c \<le> c'"
proof (cases op)
  case (AlertCheck site now)
  show ?thesis
  proof (cases "active_streams s site")
    case None
    then show ?thesis using AlertCheck assms(2) by simp
  next
    case (Some stream)
    then show ?thesis
      using AlertCheck check_rules_cooldown_mono [OF assms, of site stream now]
      by (simp add: check_alerts_def)
  qed
qed (use assms(2) in \<open>simp_all add: start_realtime_analysis_def stop_realtime_analysis_def
        process_realtime_data_def Let_def main_processor_step_other configure_thresholds_def
        split: option.splits\<close>)

lemma run_cooldown_mono:
  "cooldowns_nonneg (alert_rules s) \<Longrightarrow> alert_cooldowns s k = Some c \<Longrightarrow>
   \<exists>c'. alert_cooldowns (run ops s) k = Some c' \<and> c \<le> c'"
proof (induction ops arbitrary: s c)
  case Nil
  then show ?case by (simp add: run_def)
next
  case (Cons op ops)
  obtain c1 where c1: "alert_cooldowns (step op s) k = Some c1" "c \<le> c1"
    using step_cooldown_mono [OF Cons.prems] by blast
  have "cooldowns_nonneg (alert_rules (step op s))"
    using Cons.prems(1) by (simp add: step_rules)
  from Cons.IH [OF this c1(1)] obtain c' where
    "alert_cooldowns (run ops (step op s)) k = Some c'" "c1 \<le> c'" by blast
  then show ?case using c1(2) by (auto simp: run_def)
qed

lemma setup_rules_nonneg: "cooldowns_nonneg setup_alert_rules"
  by (simp add: cooldowns_nonneg_def setup_alert_rules_def cooldown_of_def minutes_def
      traffic_spike_def traffic_drop_def high_bounce_rate_def conversion_drop_def
      server_error_spike_def unusual_user_behavior_def)

lemma setup_rules_distinct: "distinct (map fst setup_alert_rules)"
  by (simp add: setup_alert_rules_def)

lemma distinct_rule_unique:
  "distinct (map fst rules) \<Longrightarrow> (R, r) \<in> set rules \<Longrightarrow> (R, r') \<in> set rules \<Longrightarrow> r = r'"
  by (meson eq_key_imp_eq_value)

text \<open>
  Claim C1 (cooldown correctness). In any state the service reaches, once a check for
  tenant \<open>T\<close> at time \<open>t\<close> emits an alert of rule \<open>R\<close>, the cooldown entry of \<open>(T, R)\<close>
  is \<open>t\<close> plus the cooldown of \<open>R\<close>, and whatever the service does afterwards, no check
  for \<open>T\<close> at a time before that emits an alert of \<open>R\<close>, whatever the window holds.
\<close>

theorem cooldown_correctness:
  assumes fire: "R \<in> fired (fst (check_alerts T w t (run ops0 init_service)))"
    and rule: "(R, r) \<in> set setup_alert_rules"
    and before: "now < t + cooldown_of r"
  shows "alert_cooldowns (snd (check_alerts T w t (run ops0 init_service))) (cooldown_key T R) =
           Some (t + cooldown_of r) \<and>
         R \<notin> fired (fst (check_alerts T w' now
                 (run ops (snd (check_alerts T w t (run ops0 init_service))))))"
proof -
  define s where "s = run ops0 init_service"
  define s1 where "s1 = snd (check_alerts T w t s)"
  have rules: "alert_rules s = setup_alert_rules"
    by (simp add: s_def run_rules init_service_def)
  have nn: "cooldowns_nonneg (alert_rules s)"
    using rules setup_rules_nonneg by simp
  have dist: "distinct (map fst (alert_rules s))"
    using rules setup_rules_distinct by simp
  from check_rules_fired_sets_cooldown [OF dist, of R T w t s]
  obtain r' where r': "(R, r') \<in> set (alert_rules s)"
    and c: "alert_cooldowns s1 (cooldown_key T R) = Some (t + cooldown_of r')"
    using fire by (auto simp: check_alerts_def s_def s1_def)
  have same: "r' = r"
    using distinct_rule_unique [OF setup_rules_distinct] r' rule rules by auto
  have "alert_rules s1 = alert_rules s"
    by (simp add: s1_def check_alerts_def check_rules_rules)
  then have "cooldowns_nonneg (alert_rules s1)" using nn by simp
  from run_cooldown_mono [OF this c, of ops]
  obtain c' where c': "alert_cooldowns (run ops s1) (cooldown_key T R) = Some c'"
    "t + cooldown_of r' \<le> c'"
    by blast
  have "now < c'" using before c'(2) same by simp
  from check_rules_suppressed [OF c'(1) this]
  have "R \<notin> fired (fst (check_alerts T w' now (run ops s1)))"
    by (simp add: check_alerts_def)
  then show ?thesis using c same by (simp add: s1_def s_def)
qed

theorem cooldown_correctness_witness:
  "''high_bounce_rate'' \<in> fired (fst (check_alerts ''site-1''
       (stream_of (run one_visit init_service) ''site-1'') 0 (run one_visit init_service))) \<and>
   (''high_bounce_rate'', high_bounce_rate) \<in> set setup_alert_rules \<and>
   minutes 29 < 0 + cooldown_of high_bounce_rate \<and>
   ''high_bounce_rate'' \<notin> fired (fst (check_alerts ''site-1''
       (stream_of (run one_visit init_service) ''site-1'') (minutes 29)
       (run [AlertCheck ''site-1'' (minutes 10)] (snd (check_alerts ''site-1''
          (stream_of (run one_visit init_service) ''site-1'') 0 (run one_visit init_service))))))"
proof -
  have fire: "''high_bounce_rate'' \<in> fired (fst (check_alerts ''site-1''
       (stream_of (run one_visit init_service) ''site-1'') 0 (run one_visit init_service)))"
    by (simp add: one_visit_def run_defs alert_defs)
  have rule: "(''high_bounce_rate'', high_bounce_rate) \<in> set setup_alert_rules"
    by (simp add: setup_alert_rules_def)
  have before: "minutes 29 < 0 + cooldown_of high_bounce_rate"
    by (simp add: cooldown_of_def high_bounce_rate_def minutes_def)
  from cooldown_correctness [OF fire rule before]
  show ?thesis using fire rule before by blast
qed

subsection \<open>The alert condition\<close>

lemma filter_raise_Some:
  "filter_raise p xs = Some ys \<Longrightarrow> ys = filter (\<lambda>x. p x = Some True) xs"
proof (induction xs arbitrary: ys)
  case Nil
  then show ?case by simp
next
  case (Cons x xs)
  then show ?case by (auto split: option.splits if_splits)
qed

lemma filter_raise_None: "filter_raise p xs = None \<longleftrightarrow> (\<exists>x\<in>set xs. p x = None)"
  by (induction xs) (auto split: option.splits)


lemma check_relative:
  "metric rule = Some mn \<Longrightarrow> threshold rule = None \<Longrightarrow> threshold_multiplier rule = Some m \<Longrightarrow>
   check_alert_condition stream rule now =
     (0 < baseline stream rule mn now \<and>
      (if 1 < m then baseline stream rule mn now * m < metric_get (metrics stream) mn
       else metric_get (metrics stream) mn < baseline stream rule mn now * m))"
  by (simp add: check_alert_condition_def baseline_def window_of_def Let_def)





text \<open>
  For every other metric \<^verbatim>\<open>_get_historical_average\<close> returns 0 or the current
  value of the metric in the window's snapshot, whatever the events of the rule's window
  are. A rule with a relative multiplier on such a metric compares the current value with
  a multiple of itself and never fires. Of the rules of \<^verbatim>\<open>_setup_alert_rules\<close> this is
  \<open>conversion_drop\<close> on \<open>conversion_rate\<close>.
\<close>

lemma baseline_snapshot:
  assumes "mn \<noteq> ''page_views_per_minute''" and "mn \<noteq> ''error_rate''"
  shows "baseline stream rule mn now = 0 \<or>
         baseline stream rule mn now = metric_get (metrics stream) mn"
  using assms
  by (simp add: baseline_def get_historical_average_def split: option.splits)

lemma snapshot_baseline_silent:
  assumes "metric rule = Some mn" and "threshold rule = None"
    and "threshold_multiplier rule = Some m"
    and "mn \<noteq> ''page_views_per_minute''" and "mn \<noteq> ''error_rate''"
  shows "\<not> check_alert_condition stream rule now"
proof
  assume fire: "check_alert_condition stream rule now"
  let ?b = "baseline stream rule mn now"
  let ?cv = "metric_get (metrics stream) mn"
  have pos: "0 < ?b" and cmp: "if 1 < m then ?b * m < ?cv else ?cv < ?b * m"
    using fire check_relative [OF assms(1-3), of stream now] by simp_all
  have eq: "?b = ?cv" using baseline_snapshot [OF assms(4,5), of stream rule now] pos by auto
  show False
  proof (cases "1 < m")
    case True
    then have "?cv * m < ?cv" using cmp eq by simp
    moreover have "?cv * 1 < ?cv * m" using True pos eq by (simp only: mult_strict_left_mono)
    ultimately show False by simp
  next
    case False
    then have "?cv < ?cv * m" using cmp eq by simp
    moreover have "?cv * m \<le> ?cv * 1" using False pos eq
      by (intro mult_left_mono) simp_all
    ultimately show False by simp
  qed
qed

text \<open>
  In the run \<open>conversion_decline\<close> the current value of \<open>conversion_rate\<close> is 1/5 and
  the conversion rate of all buffered events is 3/7.
\<close>

lemma conversion_decline_values:
  "metric_get (metrics (stream_of (run conversion_decline init_service) ''site-1''))
       ''conversion_rate'' = 1 / 5 \<and>
   conversion_rate_of
         (items (events (stream_of (run conversion_decline init_service) ''site-1''))) = 3 / 7"
  by (simp add: conversion_decline_def run_defs alert_defs conversion_rate_of_def)


lemma no_recent_baseline:
  assumes "\<forall>e\<in>set (items (events stream)). dt_gt (timestamp e) (now - minutes wm) \<noteq> Some True"
  shows "get_historical_average stream mn wm now = 0"
proof (cases "recent_events_of stream (now - minutes wm)")
  case None
  then show ?thesis by (simp add: get_historical_average_def)
next
  case (Some rel)
  then have "rel = filter (\<lambda>e. dt_gt (timestamp e) (now - minutes wm) = Some True) (items (events stream))"
    unfolding recent_events_of_def by (rule filter_raise_Some)
  then have "rel = []" using assms by (simp add: filter_empty_conv)
  then show ?thesis using Some by (simp add: get_historical_average_def)
qed

text \<open>
  Claim C10 (zero-baseline suppression). A rule with a relative multiplier and no
  absolute threshold does not fire when its baseline is 0, nor when no event of the
  window lies in the baseline interval (so a drop rule stays silent once traffic has
  ceased), nor on a window whose buffer is empty, as a freshly created one is.
\<close>

theorem zero_baseline_suppression:
  assumes "metric rule = Some mn" and "threshold rule = None"
    and "threshold_multiplier rule = Some m"
  shows "(baseline stream rule mn now = 0 \<longrightarrow> \<not> check_alert_condition stream rule now) \<and>
         ((\<forall>e\<in>set (items (events stream)).
              dt_gt (timestamp e) (now - minutes (window_of rule)) \<noteq> Some True) \<longrightarrow>
            \<not> check_alert_condition stream rule now) \<and>
         (items (events stream) = [] \<longrightarrow> \<not> check_alert_condition stream rule now)"
proof -
  have a: "baseline stream rule mn now = 0 \<Longrightarrow> \<not> check_alert_condition stream rule now"
    using assms by (simp add: check_relative)
  have b: "\<forall>e\<in>set (items (events stream)).
              dt_gt (timestamp e) (now - minutes (window_of rule)) \<noteq> Some True \<Longrightarrow>
           \<not> check_alert_condition stream rule now"
    using a no_recent_baseline [of stream now "window_of rule" mn] by (simp add: baseline_def)
  have c: "items (events stream) = [] \<Longrightarrow> \<not> check_alert_condition stream rule now"
    using b by simp
  show ?thesis using a b c by blast
qed

theorem zero_baseline_suppression_witness:
  "metric traffic_drop = Some ''page_views_per_minute'' \<and> threshold traffic_drop = None \<and>
   threshold_multiplier traffic_drop = Some (3 / 10) \<and>
   list_all (\<lambda>e. dt_gt (timestamp e) (minutes 20 - minutes (window_of traffic_drop)) \<noteq> Some True)
     (items (events (stream_of (run one_visit init_service) ''site-1''))) \<and>
   baseline (stream_of (run one_visit init_service) ''site-1'') traffic_drop
       ''page_views_per_minute'' (minutes 20) = 0 \<and>
   \<not> check_alert_condition (stream_of (run one_visit init_service) ''site-1'') traffic_drop
       (minutes 20) \<and>
   items (events (fresh_window 0)) = [] \<and>
   \<not> check_alert_condition (fresh_window 0) traffic_drop 0"
proof -
  let ?w = "stream_of (run one_visit init_service) ''site-1''"
  have m: "metric traffic_drop = Some ''page_views_per_minute''"
    and t: "threshold traffic_drop = None"
    and k: "threshold_multiplier traffic_drop = Some (3 / 10)"
    by (simp_all add: traffic_drop_def)
  have none: "\<forall>e\<in>set (items (events ?w)).
       dt_gt (timestamp e) (minutes 20 - minutes (window_of traffic_drop)) \<noteq> Some True"
    by (simp add: one_visit_def run_defs alert_defs)
  have zero: "baseline ?w traffic_drop ''page_views_per_minute'' (minutes 20) = 0"
    by (simp add: one_visit_def run_defs alert_defs)
  have empty: "items (events (fresh_window 0)) = []"
    by (simp add: fresh_window_def)
  show ?thesis
    using zero_baseline_suppression [OF m t k, of ?w "minutes 20"]
      zero_baseline_suppression [OF m t k, of "fresh_window 0" 0]
      m t k none zero empty
    unfolding list_all_iff by blast
qed

subsection \<open>Forecast\<close>

lemma page_view_after_None:
  "page_view_after t e = None \<longleftrightarrow> (event_type e = ''page_view'' \<and> \<not> is_naive (timestamp e))"
  by (cases "timestamp e") (auto simp: page_view_after_def)

lemma filter_raise_page_views:
  "filter_raise (page_view_after t) es = None \<longleftrightarrow> \<not> page_views_comparable es"
  by (auto simp: filter_raise_None page_view_after_None page_views_comparable_def list_all_iff)

lemma recent_page_views_Some:
  "page_views_comparable es \<Longrightarrow>
   \<exists>counts. recent_page_views es now is = Some counts \<and> length counts = length is"
proof (induction "is")
  case Nil
  then show ?case by simp
next
  case (Cons i "is")
  then obtain counts where c: "recent_page_views es now is = Some counts" "length counts = length is"
    by blast
  obtain pv where "filter_raise (page_view_after (now - minutes i)) es = Some pv"
    using Cons.prems filter_raise_page_views [of "now - minutes i" es] by (cases "filter_raise (page_view_after (now - minutes i)) es") auto
  then show ?case using c by simp
qed

lemma recent_page_views_None:
  "\<not> page_views_comparable es \<Longrightarrow> recent_page_views es now (i # is) = None"
  using filter_raise_page_views [of "now - minutes i" es] by simp

text \<open>
  Below ten buffered events the forecast is empty. With ten or more it is a prediction
  with confidence 0.75 when every page view of the buffer has a timestamp without UTC
  offset.
\<close>

lemma forecast_floor_comparable:
  "(length (items (events stream)) < 10 \<longrightarrow> generate_predictions stream now = None) \<and>
   (10 \<le> length (items (events stream)) \<and> page_views_comparable (items (events stream)) \<longrightarrow>
      (\<exists>p. generate_predictions stream now = Some p \<and> confidence p = 75 / 100 \<and>
           0 \<le> confidence p \<and> confidence p \<le> 1))"
proof -
  have a: "length (items (events stream)) < 10 \<Longrightarrow> generate_predictions stream now = None"
    by (simp add: generate_predictions_def)
  have b: "\<exists>p. generate_predictions stream now = Some p \<and> confidence p = 75 / 100 \<and>
           0 \<le> confidence p \<and> confidence p \<le> 1"
    if len: "10 \<le> length (items (events stream))"
      and cmp: "page_views_comparable (items (events stream))"
  proof -
    obtain counts where "recent_page_views (items (events stream)) now [1, 2, 3, 4, 5] = Some counts"
      "length counts = length [1, 2, 3, 4, 5 :: int]"
      using recent_page_views_Some [OF cmp] by blast
    moreover from this have "counts \<noteq> []" by auto
    ultimately show ?thesis using len by (simp add: generate_predictions_def)
  qed
  show ?thesis using a b by blast
qed

text \<open>
  A page view whose timestamp carries a UTC offset makes the comparison with the current
  time raise; the \<^verbatim>\<open>except\<close> clause of \<^verbatim>\<open>_generate_predictions\<close> logs the error and
  returns the empty dictionary, however many events the buffer holds.
\<close>

lemma forecast_not_comparable:
  "\<not> page_views_comparable (items (events stream)) \<Longrightarrow> generate_predictions stream now = None"
  using recent_page_views_None [of "items (events stream)" now 1 "[2, 3, 4, 5]"]
  by (simp add: generate_predictions_def)

text \<open>
  Claim C9 (forecast data floor) against the code. Ten page views whose timestamps carry
  a UTC offset are ingested and dispatched into a started session. The buffer holds ten
  events, so the floor is met, and the forecast is empty: the comparison of such a
  timestamp with the current time raises and the \<^verbatim>\<open>except\<close> clause returns the empty
  dictionary. The same ten page views with timestamps without UTC offset give a
  prediction with confidence 0.75.
\<close>

theorem forecast_aware_timestamps:
  "10 \<le> length (items (events (stream_of (run (ten_views (IsoAware 0)) init_service) ''site-1''))) \<and>
   generate_predictions (stream_of (run (ten_views (IsoAware 0)) init_service) ''site-1'') 0 = None \<and>
   10 \<le> length (items (events (stream_of (run (ten_views (IsoNaive 0)) init_service) ''site-1''))) \<and>
   (\<exists>p. generate_predictions (stream_of (run (ten_views (IsoNaive 0)) init_service) ''site-1'') 0
          = Some p \<and> confidence p = 75 / 100)"
proof -
  let ?a = "stream_of (run (ten_views (IsoAware 0)) init_service) ''site-1''"
  let ?b = "stream_of (run (ten_views (IsoNaive 0)) init_service) ''site-1''"
  have aware: "10 \<le> length (items (events ?a)) \<and> generate_predictions ?a 0 = None"
    by (simp add: ten_views_def run_defs generate_predictions_def page_view_after_def
        eval_nat_numeral)
  have many: "10 \<le> length (items (events ?b))"
    by (simp add: ten_views_def run_defs eval_nat_numeral)
  have cmp: "page_views_comparable (items (events ?b))"
    by (simp add: ten_views_def run_defs page_views_comparable_def eval_nat_numeral)
  show ?thesis
    using forecast_floor_comparable [of ?b 0] aware many cmp by blast
qed

subsection \<open>Ingest and the intake queue\<close>

lemma make_event_None: "make_event site now ev = None \<longleftrightarrow> \<not> well_formed ev"
proof (cases "raw_timestamp ev")
  case None
  then show ?thesis by (simp add: make_event_def well_formed_def)
next
  case (Some v)
  then show ?thesis by (cases v) (simp_all add: make_event_def well_formed_def)
qed

lemma make_events_malformed:
  "\<exists>ev\<in>set evs. \<not> well_formed ev \<Longrightarrow> make_events site now evs = None"
proof (induction evs)
  case Nil
  then show ?case by simp
next
  case (Cons ev evs)
  show ?case
  proof (cases "well_formed ev")
    case True
    then have "make_events site now evs = None" using Cons by simp
    then show ?thesis by (simp split: option.splits)
  next
    case False
    then have "make_event site now ev = None" by (simp add: make_event_None)
    then show ?thesis by simp
  qed
qed

lemma make_events_well_formed:
  "\<forall>ev\<in>set evs. well_formed ev \<Longrightarrow>
   \<exists>es. make_events site now evs = Some es \<and> length es = length evs"
proof (induction evs)
  case Nil
  then show ?case by simp
next
  case (Cons ev evs)
  then obtain es where "make_events site now evs = Some es" "length es = length evs" by auto
  moreover obtain e where "make_event site now ev = Some e"
    using Cons.prems make_event_None [of site now ev] by (cases "make_event site now ev") auto
  ultimately show ?case by simp
qed

lemma put_all_unbounded:
  "maxsize q = 0 \<Longrightarrow> put_all q xs = (True, q\<lparr>qitems := qitems q @ xs\<rparr>)"
  by (induction xs arbitrary: q) (simp_all add: queue_put_def queue_full_def)

lemma ingest_unbounded:
  "maxsize (processing_queue s) = 0 \<Longrightarrow> make_events site now evs = Some es \<Longrightarrow>
   process_realtime_data site evs ty now s =
     (IngestResult (length es) (calculate_instant_metrics es) (perform_analysis es ty), enqueue es s)"
  by (simp add: process_realtime_data_def put_all_unbounded Let_def enqueue_def)

lemma ingest_malformed:
  "make_events site now evs = None \<Longrightarrow> process_realtime_data site evs ty now s = (IngestError, s)"
  by (simp add: process_realtime_data_def)

lemma process_site_queue: "processing_queue (process_site now site es s) = processing_queue s"
  by (simp add: process_site_def split: option.splits)

lemma process_events_batch_queue:
  "processing_queue (process_events_batch batch now s) = processing_queue s"
proof -
  have "processing_queue (fold (\<lambda>g. process_site now (fst g) (snd g)) gs s) = processing_queue s" for gs
    by (induction gs arbitrary: s) (simp_all add: process_site_queue)
  then show ?thesis by (simp add: process_events_batch_def)
qed

lemma check_rules_queue:
  "processing_queue (snd (check_rules site stream now rules s)) = processing_queue s"
  by (induction rules arbitrary: s)
     (auto simp: Let_def send_alert_def split: option.splits)

lemma put_all_maxsize: "maxsize (snd (put_all q xs)) = maxsize q"
  by (induction xs arbitrary: q) (auto simp: queue_put_def split: option.splits if_splits)

lemma main_processor_step_maxsize:
  "maxsize (processing_queue (main_processor_step bs now s)) = maxsize (processing_queue s)"
  by (cases "qitems (processing_queue s)")
     (simp_all add: main_processor_step_def Let_def process_events_batch_queue)

lemma process_realtime_data_maxsize:
  "maxsize (processing_queue (snd (process_realtime_data site evs ty now s))) =
   maxsize (processing_queue s)"
  by (cases "make_events site now evs")
     (simp_all add: process_realtime_data_def Let_def put_all_maxsize)

lemma step_maxsize: "maxsize (processing_queue (step op s)) = maxsize (processing_queue s)"
proof (cases op)
  case (StartSession site now)
  then show ?thesis by (simp add: start_realtime_analysis_def split: option.splits)
next
  case (StopSession site)
  then show ?thesis by (simp add: stop_realtime_analysis_def)
next
  case (Ingest site evs ty now)
  then show ?thesis by (simp add: process_realtime_data_maxsize)
next
  case (Dispatch bs now)
  then show ?thesis by (simp add: main_processor_step_maxsize)
next
  case (AlertCheck site now)
  then show ?thesis by (simp add: check_alerts_def check_rules_queue split: option.splits)
next
  case (ConfigureThresholds site th)
  then show ?thesis by (simp add: configure_thresholds_def)
qed

lemma run_maxsize: "maxsize (processing_queue (run ops s)) = maxsize (processing_queue s)"
  unfolding run_def by (induction ops arbitrary: s) (simp_all add: step_maxsize)

lemma reachable_unbounded: "maxsize (processing_queue (run ops init_service)) = 0"
  by (simp add: run_maxsize init_service_def)

text \<open>
  Claim C5 (intake queue capacity), as amended. The intake queue is created without a
  maximum size: in every state the service reaches it is not full, no \<^verbatim>\<open>put\<close> suspends,
  and an ingest whose events are all well formed puts every one of them into the queue and
  returns a result that counts them. No ingest fails for lack of capacity.
\<close>

theorem intake_queue_unbounded:
  "\<not> queue_full (processing_queue (run ops init_service)) \<and>
   fst (process_realtime_data site evs ty now (run ops init_service)) \<noteq> IngestSuspended \<and>
   ((\<forall>ev\<in>set evs. well_formed ev) \<longrightarrow>
      (\<exists>es. length es = length evs \<and>
         process_realtime_data site evs ty now (run ops init_service) =
           (IngestResult (length evs) (calculate_instant_metrics es) (perform_analysis es ty),
            enqueue es (run ops init_service))))"
proof -
  define s where "s = run ops init_service"
  have m: "maxsize (processing_queue s) = 0" by (simp add: s_def reachable_unbounded)
  have a: "\<not> queue_full (processing_queue s)" using m by (simp add: queue_full_def)
  have b: "fst (process_realtime_data site evs ty now s) \<noteq> IngestSuspended"
    using m by (cases "make_events site now evs") (simp_all add: ingest_malformed ingest_unbounded)
  have c: "\<exists>es. length es = length evs \<and>
         process_realtime_data site evs ty now s =
           (IngestResult (length evs) (calculate_instant_metrics es) (perform_analysis es ty),
            enqueue es s)" if wf: "\<forall>ev\<in>set evs. well_formed ev"
  proof -
    obtain es where "make_events site now evs = Some es" "length es = length evs"
      using make_events_well_formed [OF wf] by blast
    then show ?thesis using ingest_unbounded [OF m] by auto
  qed
  show ?thesis using a b c unfolding s_def by blast
qed

theorem intake_queue_unbounded_witness:
  "well_formed (visit ''page_view'' (IsoNaive 0) None) \<and>
   \<not> queue_full (processing_queue (run one_visit init_service)) \<and>
   (\<exists>es. length es = 1 \<and>
      process_realtime_data ''site-1'' [visit ''page_view'' (IsoNaive 0) None] ''standard'' 0
         (run one_visit init_service) =
        (IngestResult 1 (calculate_instant_metrics es) (perform_analysis es ''standard''),
         enqueue es (run one_visit init_service)))"
proof -
  have one: "well_formed (visit ''page_view'' (IsoNaive 0) None)"
    by (simp add: well_formed_def visit_def)
  then have wf: "\<forall>ev\<in>set [visit ''page_view'' (IsoNaive 0) None]. well_formed ev"
    by simp
  show ?thesis
    using intake_queue_unbounded
      [of one_visit "''site-1''" "[visit ''page_view'' (IsoNaive 0) None]" "''standard''" 0]
      wf one
    by simp
qed

text \<open>
  The claim as stated says that some capacity exists beyond which an ingest fails with a
  capacity error. No such capacity exists: a batch of well-formed events longer than any
  given capacity is accepted by the freshly initialised service.
\<close>

theorem capacity_error_counterexample:
  "\<not> (\<exists>capacity. \<forall>evs. capacity < length evs \<longrightarrow>
        fst (process_realtime_data ''site-1'' evs ''standard'' 0 init_service) = IngestError)"
proof
  assume "\<exists>capacity. \<forall>evs. capacity < length evs \<longrightarrow>
        fst (process_realtime_data ''site-1'' evs ''standard'' 0 init_service) = IngestError"
  then obtain capacity where cap: "\<forall>evs. capacity < length evs \<longrightarrow>
        fst (process_realtime_data ''site-1'' evs ''standard'' 0 init_service) = IngestError"
    by blast
  define evs where "evs = replicate (Suc capacity) (visit ''page_view'' (IsoNaive 0) None)"
  have "\<forall>ev\<in>set evs. well_formed ev" by (simp add: evs_def well_formed_def visit_def)
  then obtain es where "make_events ''site-1'' 0 evs = Some es"
    using make_events_well_formed by blast
  moreover have "maxsize (processing_queue init_service) = 0" by (simp add: init_service_def)
  ultimately have "fst (process_realtime_data ''site-1'' evs ''standard'' 0 init_service) \<noteq> IngestError"
    by (simp add: ingest_unbounded)
  moreover have "capacity < length evs" by (simp add: evs_def)
  ultimately show False using cap by blast
qed

text \<open>
  Claim C8 (validation failure isolation), as amended. An event that lacks a field is not
  dropped: the field gets its default (type \<open>unknown\<close>, the current time, an empty data
  dictionary). A batch that contains an event whose timestamp cannot be parsed is rejected
  as a whole: the call returns the error result and puts no event of the batch into the
  queue. A batch without such an event is put into the queue completely.
\<close>

theorem validation_whole_batch:
  "make_event site now
      \<lparr>raw_type = None, raw_timestamp = None, raw_data = None,
       raw_user_id = None, raw_session_id = None\<rparr> =
     Some \<lparr>site_id = site, event_type = ''unknown'', timestamp = Naive now,
           data = DataDict False, user_id = None, session_id = None\<rparr> \<and>
   ((\<exists>ev\<in>set evs. \<not> well_formed ev) \<longrightarrow>
      process_realtime_data site evs ty now (run ops init_service) =
        (IngestError, run ops init_service)) \<and>
   ((\<forall>ev\<in>set evs. well_formed ev) \<longrightarrow>
      (\<exists>es. length es = length evs \<and>
         process_realtime_data site evs ty now (run ops init_service) =
           (IngestResult (length evs) (calculate_instant_metrics es) (perform_analysis es ty),
            enqueue es (run ops init_service))))"
proof -
  define s where "s = run ops init_service"
  have m: "maxsize (processing_queue s) = 0" by (simp add: s_def reachable_unbounded)
  have d: "make_event site now
      \<lparr>raw_type = None, raw_timestamp = None, raw_data = None,
       raw_user_id = None, raw_session_id = None\<rparr> =
     Some \<lparr>site_id = site, event_type = ''unknown'', timestamp = Naive now,
           data = DataDict False, user_id = None, session_id = None\<rparr>"
    by (simp add: make_event_def)
  have a: "process_realtime_data site evs ty now s = (IngestError, s)"
    if bad: "\<exists>ev\<in>set evs. \<not> well_formed ev"
    using make_events_malformed [OF bad] by (simp add: ingest_malformed)
  have c: "\<exists>es. length es = length evs \<and>
         process_realtime_data site evs ty now s =
           (IngestResult (length evs) (calculate_instant_metrics es) (perform_analysis es ty),
            enqueue es s)" if wf: "\<forall>ev\<in>set evs. well_formed ev"
  proof -
    obtain es where "make_events site now evs = Some es" "length es = length evs"
      using make_events_well_formed [OF wf] by blast
    then show ?thesis using ingest_unbounded [OF m] by auto
  qed
  show ?thesis using d a c unfolding s_def by blast
qed

theorem validation_whole_batch_witness:
  "\<not> well_formed (visit ''page_view'' IsoInvalid (Some ''s2'')) \<and>
   process_realtime_data ''site-1''
      [visit ''page_view'' (IsoNaive 0) (Some ''s1''),
       visit ''page_view'' IsoInvalid (Some ''s2'')] ''standard'' 0 (run one_visit init_service) =
     (IngestError, run one_visit init_service) \<and>
   well_formed (visit ''page_view'' (IsoNaive 0) (Some ''s1'')) \<and>
   (\<exists>es. length es = 1 \<and>
      process_realtime_data ''site-1'' [visit ''page_view'' (IsoNaive 0) (Some ''s1'')]
         ''standard'' 0 (run one_visit init_service) =
        (IngestResult 1 (calculate_instant_metrics es) (perform_analysis es ''standard''),
         enqueue es (run one_visit init_service)))"
proof -
  have nwf: "\<not> well_formed (visit ''page_view'' IsoInvalid (Some ''s2''))"
    and one: "well_formed (visit ''page_view'' (IsoNaive 0) (Some ''s1''))"
    by (simp_all add: well_formed_def visit_def)
  have bad: "\<exists>ev\<in>set [visit ''page_view'' (IsoNaive 0) (Some ''s1''),
              visit ''page_view'' IsoInvalid (Some ''s2'')]. \<not> well_formed ev"
    using nwf by simp
  have wf: "\<forall>ev\<in>set [visit ''page_view'' (IsoNaive 0) (Some ''s1'')]. well_formed ev"
    using one by simp
  show ?thesis
    using validation_whole_batch [of "''site-1''" 0
        "[visit ''page_view'' (IsoNaive 0) (Some ''s1''),
          visit ''page_view'' IsoInvalid (Some ''s2'')]" "''standard''" one_visit]
      validation_whole_batch [of "''site-1''" 0
        "[visit ''page_view'' (IsoNaive 0) (Some ''s1'')]" "''standard''" one_visit]
      bad wf nwf one
    by simp
qed

text \<open>
  The claim as stated fails on a batch of one well-formed event followed by one whose
  timestamp cannot be parsed: the call returns the error result and the queue stays empty,
  so the well-formed event is lost with the malformed one.
\<close>

theorem validation_isolation_counterexample:
  "fst (process_realtime_data ''site-1''
      [visit ''page_view'' (IsoNaive 0) (Some ''s1''),
       visit ''page_view'' IsoInvalid (Some ''s2'')] ''standard'' 0
      (run [StartSession ''site-1'' 0] init_service)) = IngestError \<and>
   qitems (processing_queue (snd (process_realtime_data ''site-1''
      [visit ''page_view'' (IsoNaive 0) (Some ''s1''),
       visit ''page_view'' IsoInvalid (Some ''s2'')] ''standard'' 0
      (run [StartSession ''site-1'' 0] init_service)))) = []"
  by (simp add: run_defs)

subsection \<open>Threshold overrides\<close>

lemma check_rules_store_independent:
  "alert_cooldowns s = alert_cooldowns s' \<Longrightarrow>
   fst (check_rules site stream now rules s) = fst (check_rules site stream now rules s') \<and>
   alert_cooldowns (snd (check_rules site stream now rules s)) =
     alert_cooldowns (snd (check_rules site stream now rules s'))"
proof (induction rules arbitrary: s s')
  case Nil
  then show ?case by simp
next
  case (Cons p rules)
  obtain rule_name rule where p: "p = (rule_name, rule)" by (cases p)
  have ic: "in_cooldown s' k now = in_cooldown s k now" for k
    using Cons.prems by (simp add: in_cooldown_def)
  note same = Cons.IH [OF Cons.prems]
  show ?case
  proof (cases "in_cooldown s (cooldown_key site rule_name) now")
    case True
    then show ?thesis using same unfolding p by (simp add: ic)
  next
    case False
    show ?thesis
    proof (cases "check_alert_condition stream rule now")
      case cond: True
      show ?thesis
      proof (cases "create_alert site rule_name rule stream now")
        case None
        then show ?thesis using False cond Cons.prems unfolding p by (simp add: ic)
      next
        case (Some alert)
        define t where "t = (\<lambda>s. (send_alert site alert s)\<lparr>alert_cooldowns :=
            (alert_cooldowns (send_alert site alert s))
              (cooldown_key site rule_name \<mapsto> now + cooldown_of rule)\<rparr>)"
        have "alert_cooldowns (t s) = alert_cooldowns (t s')"
          using Cons.prems by (simp add: t_def send_alert_def)
        note next_same = Cons.IH [OF this]
        have "check_rules site stream now (p # rules) s =
                (alert # fst (check_rules site stream now rules (t s)),
                 snd (check_rules site stream now rules (t s)))"
          using False cond Some unfolding p by (simp add: Let_def t_def)
        moreover have "check_rules site stream now (p # rules) s' =
                (alert # fst (check_rules site stream now rules (t s')),
                 snd (check_rules site stream now rules (t s')))"
          using False cond Some unfolding p by (simp add: Let_def t_def ic)
        ultimately show ?thesis using next_same by simp
      qed
    next
      case nocond: False
      then show ?thesis using False same unfolding p by (simp add: ic)
    qed
  qed
qed

text \<open>
  Claim C6 (threshold override precedence), as amended. \<^verbatim>\<open>configure_thresholds\<close> stores
  the thresholds of a tenant in the store under \<open>custom_thresholds:\<close> and the tenant's
  name with a time to live of 24 hours, and nothing else: the alerts a check emits and the
  cooldowns it sets are those of the rules' own thresholds, with and without an override.
\<close>

theorem overrides_not_consulted:
  "redis (configure_thresholds site' thresholds s) (''custom_thresholds:'' @ site') =
     Some (RThresholds thresholds, Some 86400) \<and>
   fst (check_alerts site stream now (configure_thresholds site' thresholds s)) =
     fst (check_alerts site stream now s) \<and>
   alert_cooldowns (snd (check_alerts site stream now (configure_thresholds site' thresholds s))) =
     alert_cooldowns (snd (check_alerts site stream now s))"
proof -
  have "alert_cooldowns (configure_thresholds site' thresholds s) = alert_cooldowns s"
    and r: "alert_rules (configure_thresholds site' thresholds s) = alert_rules s"
    by (simp_all add: configure_thresholds_def)
  from check_rules_store_independent [OF this(1)]
  show ?thesis using r by (simp add: check_alerts_def) (simp add: configure_thresholds_def)
qed

theorem overrides_not_consulted_witness:
  "fst (check_alerts ''site-1'' (stream_of (run six_sessions init_service) ''site-1'') 0
      (configure_thresholds ''site-1'' [(''bounce_rate'', 95 / 100)]
         (run six_sessions init_service))) =
   fst (check_alerts ''site-1'' (stream_of (run six_sessions init_service) ''site-1'') 0
      (run six_sessions init_service))"
  using overrides_not_consulted
    [of "''site-1''" "[(''bounce_rate'', 95 / 100)]" "run six_sessions init_service"
        "''site-1''" "stream_of (run six_sessions init_service) ''site-1''" 0]
  by blast

text \<open>
  The claim as stated fails for a tenant with six browser sessions of which five saw one
  page: the bounce rate is 5/6, the override 0.95 for \<open>bounce_rate\<close> is stored, and the
  check still emits \<open>high_bounce_rate\<close>, by the rule's own threshold 0.8.
\<close>

theorem override_precedence_counterexample:
  "redis (run (six_sessions @ [ConfigureThresholds ''site-1'' [(''bounce_rate'', 95 / 100)]])
            init_service) ''custom_thresholds:site-1'' =
     Some (RThresholds [(''bounce_rate'', 95 / 100)], Some 86400) \<and>
   metric_get (metrics (stream_of
      (run (six_sessions @ [ConfigureThresholds ''site-1'' [(''bounce_rate'', 95 / 100)]])
         init_service) ''site-1'')) ''bounce_rate'' \<le> 95 / 100 \<and>
   ''high_bounce_rate'' \<in> fired (fst (check_alerts ''site-1''
      (stream_of
        (run (six_sessions @ [ConfigureThresholds ''site-1'' [(''bounce_rate'', 95 / 100)]])
           init_service) ''site-1'') 0
      (run (six_sessions @ [ConfigureThresholds ''site-1'' [(''bounce_rate'', 95 / 100)]])
         init_service)))"
  by (simp add: six_sessions_def run_defs alert_defs)

subsection \<open>A bounce rate that is not reset\<close>

text \<open>
  Claim C7 (zero-denominator defaulting) against the code. After one page view of one
  session at time 0 the bounce rate is 1. Five minutes later an event arrives that
  carries the time 0: the recomputation finds no event in the last minute, sets
  \<open>events_per_minute\<close>, \<open>conversion_rate\<close> and \<open>error_rate\<close> to 0 and leaves
  \<open>bounce_rate\<close> at 1, because the assignment is skipped when there is no session.
\<close>

theorem stale_bounce_rate:
  "recent_events_of (stream_of (run late_visit init_service) ''site-1'')
      (minutes 5 - minutes 1) = Some [] \<and>
   metric_get (metrics (stream_of (run late_visit init_service) ''site-1''))
      ''events_per_minute'' = 0 \<and>
   metric_get (metrics (stream_of (run late_visit init_service) ''site-1''))
      ''conversion_rate'' = 0 \<and>
   metric_get (metrics (stream_of (run late_visit init_service) ''site-1''))
      ''error_rate'' = 0 \<and>
   metric_get (metrics (stream_of (run late_visit init_service) ''site-1''))
      ''bounce_rate'' = 1"
  by (simp add: late_visit_def one_visit_def run_defs metric_get_def)

end
